theory Spec2Isabelle
  imports Main "HOL-Library.Sublist"
begin

section \<open>Text preparation for speech synthesis: the embedding\<close>

text \<open>
  The function \<^verbatim>\<open>sanitize_and_prepare_text_for_llm\<close> of \<^verbatim>\<open>main.py\<close> (the spec's
  \<^verbatim>\<open>prepare\<close>). A Python \<^verbatim>\<open>str\<close> is a sequence of Unicode code points, so a string is a
  list of code points here (natural numbers); \<^verbatim>\<open>len\<close> is the length of that list. The
  bounds \<^verbatim>\<open>min_chars\<close> and \<^verbatim>\<open>max_chars\<close> are Python integers, hence \<^typ>\<open>int\<close>.
\<close>

type_synonym ustring = "nat list"

text \<open>An ASCII literal as a sequence of code points.\<close>

definition ustr :: "string \<Rightarrow> ustring" where
  "ustr s = map of_char s"

subsection \<open>Library functions of Python used by the source\<close>

text \<open>
  Whitespace as \<^verbatim>\<open>\s\<close> of \<^verbatim>\<open>re\<close> on \<^verbatim>\<open>str\<close> patterns and as \<^verbatim>\<open>str.strip()\<close> see it:
  the code points for which \<^verbatim>\<open>str.isspace\<close> holds.
\<close>

definition is_space :: "nat \<Rightarrow> bool" where
  "is_space c \<longleftrightarrow>
     (9 \<le> c \<and> c \<le> 13) \<or> (28 \<le> c \<and> c \<le> 32) \<or> c = 133 \<or> c = 160 \<or> c = 5760 \<or>
     (8192 \<le> c \<and> c \<le> 8202) \<or> c = 8232 \<or> c = 8233 \<or> c = 8239 \<or> c = 8287 \<or> c = 12288"

text \<open>\<^verbatim>\<open>s.strip()\<close>: leading and trailing whitespace removed.\<close>

definition strip :: "ustring \<Rightarrow> ustring" where
  "strip s = rev (dropWhile is_space (rev (dropWhile is_space s)))"

text \<open>
  \<^verbatim>\<open>text.replace(old, new)\<close>: the occurrences of \<^verbatim>\<open>old\<close> are found from left to right
  and do not overlap; with an empty \<^verbatim>\<open>old\<close>, \<^verbatim>\<open>new\<close> is put before every character
  and at the end.
\<close>

function str_replace :: "ustring \<Rightarrow> ustring \<Rightarrow> ustring \<Rightarrow> ustring" where
  "str_replace old new [] = (if old = [] then new else [])"
| "str_replace old new (c # cs) =
     (if old = [] then new @ c # str_replace old new cs
      else if take (length old) (c # cs) = old
           then new @ str_replace old new (drop (length old) (c # cs))
           else c # str_replace old new cs)"
  by pat_completeness auto
termination
  by (relation "measure (\<lambda>(old, new, text). length text)") auto

text \<open>\<^verbatim>\<open>re.sub(r'\s+', ' ', text)\<close>: every maximal run of whitespace becomes one space.\<close>

function collapse_ws :: "ustring \<Rightarrow> ustring" where
  "collapse_ws [] = []"
| "collapse_ws (c # cs) =
     (if is_space c then 32 # collapse_ws (dropWhile is_space cs)
      else c # collapse_ws cs)"
  by pat_completeness auto
termination
  by (relation "measure length") (auto simp: less_Suc_eq_le length_dropWhile_le)

text \<open>
  \<^verbatim>\<open>re.split(r'(?<=[.!?])\s+', text)\<close>. The scan goes from left to right; a delimiter is
  a maximal run of whitespace whose preceding character is one of \<^verbatim>\<open>.\<close>, \<^verbatim>\<open>!\<close>, \<^verbatim>\<open>?\<close>.
  The flag says whether the character before the scan position is such a mark, and
  the second argument is the piece read so far. The piece before a delimiter is
  emitted, the delimiter is dropped, and the rest of the text after the last
  delimiter is emitted at the end (so the empty text gives one empty piece).
\<close>

definition is_terminal :: "nat \<Rightarrow> bool" where
  "is_terminal c \<longleftrightarrow> c = 46 \<or> c = 33 \<or> c = 63"

function split_scan :: "bool \<Rightarrow> ustring \<Rightarrow> ustring \<Rightarrow> ustring list" where
  "split_scan after_mark piece [] = [piece]"
| "split_scan after_mark piece (c # cs) =
     (if after_mark \<and> is_space c
      then piece # split_scan False [] (dropWhile is_space cs)
      else split_scan (is_terminal c) (piece @ [c]) cs)"
  by pat_completeness auto
termination
  by (relation "measure (\<lambda>(after_mark, piece, text). length text)")
     (auto simp: less_Suc_eq_le length_dropWhile_le)

definition split_sentences :: "ustring \<Rightarrow> ustring list" where
  "split_sentences text = split_scan False [] text"

text \<open>\<^verbatim>\<open>sep.join(parts)\<close>.\<close>

fun join :: "ustring \<Rightarrow> ustring list \<Rightarrow> ustring" where
  "join sep [] = []"
| "join sep [x] = x"
| "join sep (x # y # ys) = x @ sep @ join sep (y # ys)"

subsection \<open>Step 1: normalization\<close>

text \<open>
  The dictionary \<^verbatim>\<open>replacements\<close> as the source file has it, in insertion order (the
  order \<^verbatim>\<open>items()\<close> iterates in). The source line for the double quotes reads
  \<^verbatim>\<open>'"': '"'\<close> with the straight quote U+0022 on both sides. On the next line the
  source has three straight single quotes in a row twice, so Python reads one
  triple-quoted string there: the key is the seven characters between the two
  triple quotes (colon, space, double quote, single quote, double quote, comma, space)
  and its value is the single quote. Then come the em dash U+2014, the en dash
  U+2013 and the non-breaking space U+00A0.
\<close>

definition replacements :: "(ustring \<times> ustring) list" where
  "replacements =
     [([34], [34]),
      ([58, 32, 34, 39, 34, 44, 32], [39]),
      ([8212], [45]),
      ([8211], [45]),
      ([160], [32])]"

definition apply_replacements :: "ustring \<Rightarrow> ustring" where
  "apply_replacements text = fold (\<lambda>(old, new) t. str_replace old new t) replacements text"

text \<open>The characters that \<^verbatim>\<open>re.sub(r'[^\x20-\x7E\n\r\t]', '', text)\<close> keeps.\<close>

definition keep_char :: "nat \<Rightarrow> bool" where
  "keep_char c \<longleftrightarrow> (32 \<le> c \<and> c \<le> 126) \<or> c = 10 \<or> c = 13 \<or> c = 9"

definition normalize :: "ustring \<Rightarrow> ustring" where
  "normalize text = strip (collapse_ws (filter keep_char (apply_replacements text)))"

subsection \<open>Step 3: greedy packing\<close>

text \<open>
  The loop state is the list \<^verbatim>\<open>lines\<close> and the accumulator \<^verbatim>\<open>current\<close>; one
  iteration of the \<^verbatim>\<open>for\<close> loop is \<open>pack_step\<close>.
\<close>

record pack_state =
  lines :: "ustring list"
  current :: ustring

definition pack_step :: "int \<Rightarrow> int \<Rightarrow> ustring \<Rightarrow> pack_state \<Rightarrow> pack_state" where
  "pack_step min_chars max_chars sentence st =
     (if strip sentence = [] then st
      else if int (length (current st)) + int (length sentence) + 1 \<le> max_chars
           then st\<lparr>current := current st @ sentence @ [32]\<rparr>
      else if min_chars \<le> int (length (strip (current st)))
           then \<lparr>lines = lines st @ [strip (current st)], current = sentence @ [32]\<rparr>
           else st\<lparr>current := current st @ sentence @ [32]\<rparr>)"

definition pack_loop :: "int \<Rightarrow> int \<Rightarrow> ustring list \<Rightarrow> pack_state" where
  "pack_loop min_chars max_chars sentences =
     fold (pack_step min_chars max_chars) sentences \<lparr>lines = [], current = []\<rparr>"

text \<open>The flush after the loop.\<close>

definition final_flush :: "pack_state \<Rightarrow> ustring list" where
  "final_flush st = (if strip (current st) \<noteq> [] then lines st @ [strip (current st)] else lines st)"

text \<open>The list \<^verbatim>\<open>lines\<close> at the \<^verbatim>\<open>return\<close>, that is, the emitted chunks in order.\<close>

definition chunks :: "ustring \<Rightarrow> int \<Rightarrow> int \<Rightarrow> ustring list" where
  "chunks text min_chars max_chars =
     final_flush (pack_loop min_chars max_chars (split_sentences (normalize text)))"

definition sanitize_and_prepare_text_for_llm :: "ustring \<Rightarrow> int \<Rightarrow> int \<Rightarrow> ustring" where
  "sanitize_and_prepare_text_for_llm text min_chars max_chars =
     join [10] (chunks text min_chars max_chars)"

subsection \<open>Notions used to state the properties\<close>

text \<open>Printable ASCII, the range \<^verbatim>\<open>\x20-\x7E\<close>.\<close>

definition printable :: "nat \<Rightarrow> bool" where
  "printable c \<longleftrightarrow> 32 \<le> c \<and> c \<le> 126"

text \<open>
  The sentences the loop works on: the pieces of Step 2 without those the loop skips
  with \<^verbatim>\<open>continue\<close> (empty or whitespace only).
\<close>

definition sentences_of :: "ustring \<Rightarrow> ustring list" where
  "sentences_of text = filter (\<lambda>s. strip s \<noteq> []) (split_sentences text)"

text \<open>
  The loop again, with a record of how every sentence entered its chunk. The three
  assignments to \<^verbatim>\<open>current\<close> in the loop body are named: \<open>Fits\<close> is the branch of
  \<^verbatim>\<open>len(current) + len(sentence) + 1 <= max_chars\<close>, \<open>Fresh\<close> is the assignment
  \<^verbatim>\<open>current = sentence + " "\<close> after a flush, and \<open>Forced\<close> is the last \<^verbatim>\<open>else\<close>
  (the force-merge). The record holds, beside the state of the real loop, the groups
  of the chunks flushed so far and the group of the accumulator. The state component
  is computed by \<open>pack_step\<close> itself, and the tests are those of \<open>pack_step\<close>.
\<close>

datatype branch = Fits | Fresh | Forced

type_synonym entry = "branch \<times> ustring"

record trace_state =
  state :: pack_state
  flushed :: "entry list list"
  pending :: "entry list"

definition trace_step :: "int \<Rightarrow> int \<Rightarrow> ustring \<Rightarrow> trace_state \<Rightarrow> trace_state" where
  "trace_step min_chars max_chars sentence ts =
     (let st = state ts; st' = pack_step min_chars max_chars sentence st in
      if strip sentence = [] then ts\<lparr>state := st'\<rparr>
      else if int (length (current st)) + int (length sentence) + 1 \<le> max_chars
           then ts\<lparr>state := st', pending := pending ts @ [(Fits, sentence)]\<rparr>
      else if min_chars \<le> int (length (strip (current st)))
           then \<lparr>state = st', flushed = flushed ts @ [pending ts], pending = [(Fresh, sentence)]\<rparr>
           else ts\<lparr>state := st', pending := pending ts @ [(Forced, sentence)]\<rparr>)"

definition trace_loop :: "int \<Rightarrow> int \<Rightarrow> ustring list \<Rightarrow> trace_state" where
  "trace_loop min_chars max_chars sentences =
     fold (trace_step min_chars max_chars) sentences
       \<lparr>state = \<lparr>lines = [], current = []\<rparr>, flushed = [], pending = []\<rparr>"

text \<open>The groups of the chunks at the \<^verbatim>\<open>return\<close>, the final flush included.\<close>

definition trace_flush :: "trace_state \<Rightarrow> entry list list" where
  "trace_flush ts =
     (if strip (current (state ts)) \<noteq> [] then flushed ts @ [pending ts] else flushed ts)"

definition groups :: "ustring \<Rightarrow> int \<Rightarrow> int \<Rightarrow> entry list list" where
  "groups text min_chars max_chars =
     trace_flush (trace_loop min_chars max_chars (split_sentences (normalize text)))"

text \<open>The accumulator that a group of sentences builds: each sentence and a space.\<close>

definition acc_of :: "entry list \<Rightarrow> ustring" where
  "acc_of g = concat (map (\<lambda>(b, s). s @ [32]) g)"

text \<open>The sentences of a group, and the chunk they make.\<close>

definition sentences_in :: "entry list \<Rightarrow> ustring list" where
  "sentences_in g = map snd g"

definition chunk_of :: "entry list \<Rightarrow> ustring" where
  "chunk_of g = join [32] (sentences_in g)"

text \<open>
  No delimiter of Step 2 inside a text: no whitespace right after a terminal mark
  (the flag is as in \<open>split_scan\<close>).
\<close>

fun no_break :: "bool \<Rightarrow> ustring \<Rightarrow> bool" where
  "no_break after_mark [] = True"
| "no_break after_mark (c # cs) = (\<not> (after_mark \<and> is_space c) \<and> no_break (is_terminal c) cs)"

definition ends_terminal :: "ustring \<Rightarrow> bool" where
  "ends_terminal s \<longleftrightarrow> s \<noteq> [] \<and> is_terminal (last s)"

text \<open>Every whitespace character is one space, and a character that is no whitespace follows it.\<close>

fun spaced :: "ustring \<Rightarrow> bool" where
  "spaced [] = True"
| "spaced (c # cs) = ((is_space c \<longrightarrow> c = 32 \<and> cs \<noteq> [] \<and> \<not> is_space (hd cs)) \<and> spaced cs)"

text \<open>
  What the three names mean, stated on a group alone: a sentence marked \<open>Fits\<close> passed
  the length test against the accumulator built by the sentences before it, a sentence
  marked \<open>Forced\<close> failed that test while the trimmed accumulator was shorter than
  \<^verbatim>\<open>min_chars\<close>, and a sentence marked \<open>Fresh\<close> is the first of its group.
\<close>

definition sound :: "int \<Rightarrow> int \<Rightarrow> entry list \<Rightarrow> bool" where
  "sound min_chars max_chars g \<longleftrightarrow>
     (\<forall>pre b s post. g = pre @ (b, s) # post \<longrightarrow>
        (b = Fits \<longrightarrow> int (length (acc_of pre)) + int (length s) + 1 \<le> max_chars) \<and>
        (b = Forced \<longrightarrow> \<not> int (length (acc_of pre)) + int (length s) + 1 \<le> max_chars \<and>
                       int (length (strip (acc_of pre))) < min_chars) \<and>
        (b = Fresh \<longrightarrow> pre = []))"

text \<open>The invariant of the loop that ties the record to the real state.\<close>

definition trace_inv :: "int \<Rightarrow> int \<Rightarrow> trace_state \<Rightarrow> bool" where
  "trace_inv min_chars max_chars ts \<longleftrightarrow>
     current (state ts) = acc_of (pending ts) \<and>
     lines (state ts) = map (\<lambda>g. strip (acc_of g)) (flushed ts) \<and>
     (\<forall>g\<in>set (flushed ts). min_chars \<le> int (length (strip (acc_of g)))) \<and>
     (\<forall>g\<in>set (flushed ts @ [pending ts]). sound min_chars max_chars g) \<and>
     (\<forall>g\<in>set (flushed ts @ [pending ts]). \<forall>e\<in>set g. strip (snd e) \<noteq> [])"

section \<open>Auxiliary facts\<close>

subsection \<open>Trimming\<close>


lemma strip_Nil [simp]: "strip [] = []"
  by (simp add: strip_def)

lemma sublist_strip: "sublist (strip s) s"
proof -
  have "prefix (strip s) (dropWhile is_space s)"
    unfolding strip_def by (metis suffix_dropWhile suffix_to_prefix rev_rev_ident)
  then have "sublist (strip s) (dropWhile is_space s)" by simp
  moreover have "sublist (dropWhile is_space s) s" by simp
  ultimately show ?thesis by (rule sublist_order.order_trans)
qed

lemma set_strip: "set (strip s) \<subseteq> set s"
  by (rule set_mono_sublist [OF sublist_strip])

lemma length_strip_le: "length (strip s) \<le> length s"
  by (rule sublist_length_le [OF sublist_strip])

lemma dropWhile_all: "(\<forall>c\<in>set s. P c) \<Longrightarrow> dropWhile P s = []"
  by (simp add: dropWhile_eq_Nil_conv)

lemma strip_eq_Nil_iff: "strip s = [] \<longleftrightarrow> (\<forall>c\<in>set s. is_space c)"
proof
  assume "\<forall>c\<in>set s. is_space c"
  then show "strip s = []" by (simp add: strip_def dropWhile_all)
next
  assume e: "strip s = []"
  show "\<forall>c\<in>set s. is_space c"
  proof (cases "dropWhile is_space s = []")
    case True
    then show ?thesis by (simp add: dropWhile_eq_Nil_conv)
  next
    case False
    then have "\<not> is_space (hd (dropWhile is_space s))" by (rule hd_dropWhile)
    moreover have "hd (dropWhile is_space s) \<in> set (dropWhile is_space s)"
      using False by simp
    moreover have "\<forall>c\<in>set (dropWhile is_space s). is_space c"
      using e by (simp add: strip_def dropWhile_eq_Nil_conv)
    ultimately show ?thesis by blast
  qed
qed

lemma hd_strip: "strip s \<noteq> [] \<Longrightarrow> \<not> is_space (hd (strip s))"
proof -
  assume ne: "strip s \<noteq> []"
  let ?d = "dropWhile is_space s"
  have d: "?d \<noteq> []"
  proof
    assume "?d = []"
    then have "strip s = []" by (metis dropWhile.simps(1) rev.simps(1) strip_def)
    with ne show False by simp
  qed
  have "prefix (strip s) ?d"
    unfolding strip_def by (metis suffix_dropWhile suffix_to_prefix rev_rev_ident)
  then have "hd (strip s) = hd ?d" using ne by (auto simp: prefix_def)
  moreover have "\<not> is_space (hd ?d)" using d by (rule hd_dropWhile)
  ultimately show ?thesis by simp
qed

lemma last_strip: "strip s \<noteq> [] \<Longrightarrow> \<not> is_space (last (strip s))"
proof -
  assume ne: "strip s \<noteq> []"
  let ?r = "dropWhile is_space (rev (dropWhile is_space s))"
  have r: "?r \<noteq> []" using ne by (simp add: strip_def)
  have "last (strip s) = hd ?r" using r by (simp add: strip_def last_rev)
  moreover have "\<not> is_space (hd ?r)" using r by (rule hd_dropWhile)
  ultimately show ?thesis by simp
qed

lemma strip_id: "s \<noteq> [] \<Longrightarrow> \<not> is_space (hd s) \<Longrightarrow> \<not> is_space (last s) \<Longrightarrow> strip s = s"
proof -
  assume a: "s \<noteq> []" "\<not> is_space (hd s)" "\<not> is_space (last s)"
  then have 1: "dropWhile is_space s = s" by (cases s) auto
  have "rev s \<noteq> []" "\<not> is_space (hd (rev s))" using a by (auto simp: hd_rev)
  then have 2: "dropWhile is_space (rev s) = rev s" by (cases "rev s") auto
  show ?thesis by (simp add: strip_def 1 2)
qed

lemma strip_snoc_space: "is_space c \<Longrightarrow> strip (s @ [c]) = strip s"
proof (cases "\<forall>x\<in>set s. is_space x")
  case True
  assume "is_space c"
  with True have "strip (s @ [c]) = []" "strip s = []"
    by (simp_all add: strip_eq_Nil_iff)
  then show ?thesis by simp
next
  case False
  assume c: "is_space c"
  from False have "dropWhile is_space (s @ [c]) = dropWhile is_space s @ [c]"
    by (auto simp: dropWhile_append1)
  then show ?thesis using c by (simp add: strip_def)
qed

lemma length_strip_snoc_space: "is_space c \<Longrightarrow> length (strip (s @ [c])) \<le> length s"
  by (simp add: strip_snoc_space length_strip_le)

subsection \<open>The shape of the normalized text\<close>


lemma is_space_32 [simp]: "is_space 32"
  by (simp add: is_space_def)

lemma space_printable: "is_space c \<Longrightarrow> printable c \<Longrightarrow> c = 32"
  by (auto simp: is_space_def printable_def)

lemma keep_not_space_printable: "keep_char c \<Longrightarrow> \<not> is_space c \<Longrightarrow> printable c"
  by (auto simp: is_space_def printable_def keep_char_def)

lemma collapse_ws_elems:
  "c \<in> set (collapse_ws t) \<Longrightarrow> c = 32 \<or> (c \<in> set t \<and> \<not> is_space c)"
proof (induction t rule: collapse_ws.induct)
  case 1
  then show ?case by simp
next
  case (2 d ds)
  show ?case
  proof (cases "is_space d")
    case True
    with 2 show ?thesis by (auto dest: set_dropWhileD)
  next
    case False
    with 2 show ?thesis by auto
  qed
qed

lemma hd_collapse_ws: "t \<noteq> [] \<Longrightarrow> \<not> is_space (hd t) \<Longrightarrow> collapse_ws t \<noteq> [] \<and> hd (collapse_ws t) = hd t"
  by (cases t) auto

lemma collapse_ws_no_double: "\<not> sublist [32, 32] (collapse_ws t)"
proof (induction t rule: collapse_ws.induct)
  case 1
  then show ?case by simp
next
  case (2 d ds)
  show ?case
  proof (cases "is_space d")
    case True
    let ?r = "dropWhile is_space ds"
    have ih: "\<not> sublist [32, 32] (collapse_ws ?r)" using 2(1) True by simp
    have "\<not> prefix [32, 32] (32 # collapse_ws ?r)"
    proof (cases "?r = []")
      case True
      then have "collapse_ws ?r = []" by (simp only: collapse_ws.simps(1))
      then show ?thesis by simp
    next
      case False
      then have "\<not> is_space (hd ?r)" by (rule hd_dropWhile)
      with False have "collapse_ws ?r \<noteq> []" "hd (collapse_ws ?r) = hd ?r"
        using hd_collapse_ws by blast+
      moreover have "hd ?r \<noteq> 32" using \<open>\<not> is_space (hd ?r)\<close> by auto
      ultimately show ?thesis by (cases "collapse_ws ?r") auto
    qed
    with ih True show ?thesis by (simp add: sublist_Cons_right)
  next
    case False
    then have "d \<noteq> 32" by auto
    with 2(2) False show ?thesis by (simp add: sublist_Cons_right)
  qed
qed

lemma printable_normalize: "c \<in> set (normalize t) \<Longrightarrow> printable c"
proof -
  assume "c \<in> set (normalize t)"
  then have "c \<in> set (collapse_ws (filter keep_char (apply_replacements t)))"
    unfolding normalize_def using set_strip by blast
  then have "c = 32 \<or> (keep_char c \<and> \<not> is_space c)"
    by (auto dest: collapse_ws_elems)
  then show ?thesis
    by (auto simp: keep_not_space_printable) (simp add: printable_def)
qed

lemma no_double_normalize: "\<not> sublist [32, 32] (normalize t)"
proof
  assume "sublist [32, 32] (normalize t)"
  moreover have "sublist (normalize t) (collapse_ws (filter keep_char (apply_replacements t)))"
    unfolding normalize_def by (rule sublist_strip)
  ultimately have "sublist [32, 32] (collapse_ws (filter keep_char (apply_replacements t)))"
    by (rule sublist_order.order_trans)
  then show False by (simp add: collapse_ws_no_double)
qed

lemma ends_normalize:
  "normalize t \<noteq> [] \<Longrightarrow> \<not> is_space (hd (normalize t)) \<and> \<not> is_space (last (normalize t))"
  unfolding normalize_def by (simp add: hd_strip last_strip)

subsection \<open>Joining and splitting\<close>


lemma join_Cons: "ys \<noteq> [] \<Longrightarrow> join sep (x # ys) = x @ sep @ join sep ys"
  by (cases ys) simp_all

lemma join_append:
  "xs \<noteq> [] \<Longrightarrow> ys \<noteq> [] \<Longrightarrow> join sep (xs @ ys) = join sep xs @ sep @ join sep ys"
proof (induction xs)
  case Nil
  then show ?case by simp
next
  case (Cons x xs)
  show ?case
  proof (cases "xs = []")
    case True
    with Cons.prems show ?thesis by (simp add: join_Cons)
  next
    case False
    with Cons show ?thesis by (simp add: join_Cons)
  qed
qed

lemma sublist_join_middle: "sublist (join sep g) (join sep (pre @ g @ post))"
proof (cases "g = []")
  case True
  then show ?thesis by simp
next
  case g: False
  have 1: "sublist (join sep g) (join sep (g @ post))"
  proof (cases "post = []")
    case True
    then show ?thesis by simp
  next
    case False
    with g show ?thesis by (simp add: join_append)
  qed
  show ?thesis
  proof (cases "pre = []")
    case True
    with 1 show ?thesis by simp
  next
    case False
    with g have "join sep (pre @ g @ post) = join sep pre @ sep @ join sep (g @ post)"
      by (simp add: join_append)
    moreover have "sublist (join sep (g @ post)) (join sep pre @ sep @ join sep (g @ post))"
      by (metis append.assoc sublist_append_leftI)
    ultimately show ?thesis using 1 sublist_order.order_trans by metis
  qed
qed

lemma split_scan_not_Nil: "split_scan b p t \<noteq> []"
  by (induction b p t rule: split_scan.induct) auto

lemma spaced_tidy:
  "\<forall>c\<in>set t. printable c \<Longrightarrow> \<not> sublist [32, 32] t \<Longrightarrow> (t \<noteq> [] \<longrightarrow> last t \<noteq> 32) \<Longrightarrow> spaced t"
proof (induction t)
  case Nil
  then show ?case by simp
next
  case (Cons c cs)
  have "cs \<noteq> [] \<longrightarrow> last cs \<noteq> 32" using Cons.prems(3) by auto
  moreover have "\<not> sublist [32, 32] cs" using Cons.prems(2) by (simp add: sublist_Cons_right)
  ultimately have cs: "spaced cs" using Cons.IH Cons.prems(1) by simp
  have "c = 32 \<and> cs \<noteq> [] \<and> \<not> is_space (hd cs)" if sp: "is_space c"
  proof -
    have c: "c = 32" using sp Cons.prems(1) by (simp add: space_printable)
    have ne: "cs \<noteq> []" using c Cons.prems(3) by auto
    have "hd cs \<noteq> 32"
    proof
      assume "hd cs = 32"
      with ne c have "prefix [32, 32] (c # cs)" by (cases cs) auto
      with Cons.prems(2) show False by (simp add: sublist_Cons_right)
    qed
    moreover have "printable (hd cs)" using ne Cons.prems(1) by simp
    ultimately have "\<not> is_space (hd cs)" using space_printable by blast
    with c ne show ?thesis by simp
  qed
  with cs show ?case by simp
qed

lemma join_split_scan: "spaced t \<Longrightarrow> join [32] (split_scan b p t) = p @ t"
proof (induction b p t rule: split_scan.induct)
  case (1 b p)
  then show ?case by simp
next
  case (2 b p c cs)
  show ?case
  proof (cases "b \<and> is_space c")
    case True
    with 2(3) have c: "c = 32" and ne: "cs \<noteq> []" and h: "\<not> is_space (hd cs)" and sp: "spaced cs"
      by simp_all
    from ne h have d: "dropWhile is_space cs = cs" by (cases cs) auto
    have "join [32] (split_scan False [] cs) = cs" using 2(1) True d sp by simp
    then show ?thesis using True d c by (simp add: join_Cons split_scan_not_Nil)
  next
    case False
    then have eq: "split_scan b p (c # cs) = split_scan (is_terminal c) (p @ [c]) cs" by auto
    have "spaced cs" using 2(3) by simp
    then have "join [32] (split_scan (is_terminal c) (p @ [c]) cs) = (p @ [c]) @ cs"
      using 2(2) False by blast
    with eq show ?thesis by simp
  qed
qed

lemma join_pieces_tidy:
  "ps \<noteq> [] \<Longrightarrow> join [32] ps \<noteq> [] \<Longrightarrow> \<not> sublist [32, 32] (join [32] ps) \<Longrightarrow>
   hd (join [32] ps) \<noteq> 32 \<Longrightarrow> last (join [32] ps) \<noteq> 32 \<Longrightarrow>
   \<forall>p\<in>set ps. p \<noteq> [] \<and> hd p \<noteq> 32 \<and> last p \<noteq> 32"
proof (induction ps)
  case Nil
  then show ?case by simp
next
  case (Cons x ps)
  show ?case
  proof (cases "ps = []")
    case True
    with Cons.prems show ?thesis by simp
  next
    case False
    let ?M = "join [32] ps"
    have N: "join [32] (x # ps) = x @ 32 # ?M" using False by (simp add: join_Cons)
    have x: "x \<noteq> []" using Cons.prems(4) N by auto
    have hx: "hd x \<noteq> 32" using Cons.prems(4) N x by simp
    have lx: "last x \<noteq> 32"
    proof
      assume "last x = 32"
      with x have "x = butlast x @ [32]" by (metis append_butlast_last_id)
      then have "x @ 32 # ?M = butlast x @ [32, 32] @ ?M" by (metis append.assoc append_Cons append_Nil)
      then have "sublist [32, 32] (x @ 32 # ?M)" by (metis sublist_appendI)
      with Cons.prems(3) N show False by simp
    qed
    have M: "?M \<noteq> []" using Cons.prems(5) N by auto
    have hM: "hd ?M \<noteq> 32"
    proof
      assume "hd ?M = 32"
      with M have "?M = 32 # tl ?M" by (metis list.collapse)
      then have "x @ 32 # ?M = x @ [32, 32] @ tl ?M" by (metis append_Cons append_Nil)
      then have "sublist [32, 32] (x @ 32 # ?M)" by (metis sublist_appendI)
      with Cons.prems(3) N show False by simp
    qed
    have lM: "last ?M \<noteq> 32" using Cons.prems(5) N M by simp
    have sM: "\<not> sublist [32, 32] ?M"
    proof
      assume "sublist [32, 32] ?M"
      moreover have "sublist ?M (x @ 32 # ?M)"
        by (metis append.assoc append_Cons append_Nil sublist_append_leftI)
      ultimately have "sublist [32, 32] (x @ 32 # ?M)" by (rule sublist_order.order_trans)
      with Cons.prems(3) N show False by simp
    qed
    have "\<forall>p\<in>set ps. p \<noteq> [] \<and> hd p \<noteq> 32 \<and> last p \<noteq> 32"
      using Cons.IH False M sM hM lM by blast
    with x hx lx show ?thesis by simp
  qed
qed

subsection \<open>Splitting a joined group again\<close>


lemma no_break_append:
  "no_break b (xs @ ys) \<longleftrightarrow>
     no_break b xs \<and> no_break (if xs = [] then b else is_terminal (last xs)) ys"
  by (induction xs arbitrary: b) auto

lemma split_scan_no_break:
  "no_break False p \<Longrightarrow> (b \<longleftrightarrow> ends_terminal p) \<Longrightarrow> s \<in> set (split_scan b p t) \<Longrightarrow> no_break False s"
proof (induction b p t rule: split_scan.induct)
  case (1 b p)
  then show ?case by simp
next
  case (2 b p c cs)
  show ?case
  proof (cases "b \<and> is_space c")
    case True
    then have "s = p \<or> s \<in> set (split_scan False [] (dropWhile is_space cs))"
      using 2(5) by auto
    then show ?thesis
    proof
      assume "s = p"
      with 2(3) show ?thesis by simp
    next
      assume "s \<in> set (split_scan False [] (dropWhile is_space cs))"
      then show ?thesis using 2(1) True by (simp add: ends_terminal_def)
    qed
  next
    case False
    then have eq: "split_scan b p (c # cs) = split_scan (is_terminal c) (p @ [c]) cs" by auto
    have nb: "no_break False (p @ [c])"
      using 2(3,4) False by (auto simp: no_break_append ends_terminal_def)
    have "is_terminal c \<longleftrightarrow> ends_terminal (p @ [c])" by (simp add: ends_terminal_def)
    then show ?thesis using 2(2) False nb 2(5) eq by metis
  qed
qed

lemma split_scan_butlast_terminal:
  "(b \<longrightarrow> ends_terminal p) \<Longrightarrow> s \<in> set (butlast (split_scan b p t)) \<Longrightarrow> ends_terminal s"
proof (induction b p t rule: split_scan.induct)
  case (1 b p)
  then show ?case by simp
next
  case (2 b p c cs)
  show ?case
  proof (cases "b \<and> is_space c")
    case True
    then have "s = p \<or> s \<in> set (butlast (split_scan False [] (dropWhile is_space cs)))"
      using 2(4) by (auto simp: split_scan_not_Nil)
    then show ?thesis
    proof
      assume "s = p"
      with 2(3) True show ?thesis by simp
    next
      assume "s \<in> set (butlast (split_scan False [] (dropWhile is_space cs)))"
      then show ?thesis using 2(1) True by simp
    qed
  next
    case False
    then have eq: "split_scan b p (c # cs) = split_scan (is_terminal c) (p @ [c]) cs" by auto
    have "is_terminal c \<longrightarrow> ends_terminal (p @ [c])" by (simp add: ends_terminal_def)
    then show ?thesis using 2(2) False 2(4) eq by metis
  qed
qed

lemma split_scan_whole: "no_break b p \<Longrightarrow> split_scan b acc p = [acc @ p]"
  by (induction p arbitrary: b acc) auto

lemma split_scan_at_break:
  "no_break b p \<Longrightarrow> (if p = [] then b else is_terminal (last p)) \<Longrightarrow> is_space c \<Longrightarrow>
   split_scan b acc (p @ c # rest) = (acc @ p) # split_scan False [] (dropWhile is_space rest)"
proof (induction p arbitrary: b acc)
  case Nil
  then show ?case by simp
next
  case (Cons d ds)
  have 1: "\<not> (b \<and> is_space d)" and 2: "no_break (is_terminal d) ds"
    using Cons.prems(1) by auto
  have 3: "if ds = [] then is_terminal d else is_terminal (last ds)"
    using Cons.prems(2) by (auto split: if_splits)
  have "split_scan b acc ((d # ds) @ c # rest) = split_scan (is_terminal d) (acc @ [d]) (ds @ c # rest)"
    using 1 by auto
  also have "\<dots> = ((acc @ [d]) @ ds) # split_scan False [] (dropWhile is_space rest)"
    using Cons.IH [OF 2 3 Cons.prems(3)] .
  finally show ?case by simp
qed

lemma resplit_join:
  "g \<noteq> [] \<Longrightarrow> \<forall>s\<in>set g. no_break False s \<and> s \<noteq> [] \<and> \<not> is_space (hd s) \<Longrightarrow>
   \<forall>s\<in>set (butlast g). ends_terminal s \<Longrightarrow> split_sentences (join [32] g) = g"
proof (induction g)
  case Nil
  then show ?case by simp
next
  case (Cons x g)
  show ?case
  proof (cases "g = []")
    case True
    with Cons.prems(2) show ?thesis
      using split_scan_whole [of False x "[]"] by (simp add: split_sentences_def)
  next
    case False
    have x: "no_break False x" "x \<noteq> []" "is_terminal (last x)"
      using Cons.prems(2,3) False by (auto simp: ends_terminal_def)
    have ih: "split_sentences (join [32] g) = g"
      using Cons.IH False Cons.prems(2,3) by (auto simp: False)
    obtain y ys where g: "g = y # ys" using False by (cases g) auto
    have y: "y \<noteq> []" "\<not> is_space (hd y)" using Cons.prems(2) g by auto
    have "hd (join [32] g) = hd y" using g y by (cases ys) auto
    moreover have "join [32] g \<noteq> []" using g y by (cases ys) auto
    ultimately have d: "dropWhile is_space (join [32] g) = join [32] g"
      using y by (cases "join [32] g") auto
    have "split_scan False [] (x @ 32 # join [32] g)
          = ([] @ x) # split_scan False [] (dropWhile is_space (join [32] g))"
      using x by (intro split_scan_at_break) auto
    then show ?thesis using False ih d by (simp add: join_Cons split_sentences_def)
  qed
qed

subsection \<open>The loop and its record\<close>


lemma acc_of_Nil [simp]: "acc_of [] = []"
  by (simp add: acc_of_def)

lemma acc_of_snoc [simp]: "acc_of (g @ [(b, s)]) = acc_of g @ s @ [32]"
  by (simp add: acc_of_def)

lemma acc_of_single [simp]: "acc_of [(b, s)] = s @ [32]"
  by (simp add: acc_of_def)

lemma sound_Nil [simp]: "sound mn mx []"
  by (simp add: sound_def)

lemma sound_snoc:
  assumes "sound mn mx g"
    and "b = Fits \<longrightarrow> int (length (acc_of g)) + int (length s) + 1 \<le> mx"
    and "b = Forced \<longrightarrow> \<not> int (length (acc_of g)) + int (length s) + 1 \<le> mx \<and>
                       int (length (strip (acc_of g))) < mn"
    and "b = Fresh \<longrightarrow> g = []"
  shows "sound mn mx (g @ [(b, s)])"
  unfolding sound_def
proof (intro allI impI)
  fix pre b' s' post
  assume eq: "g @ [(b, s)] = pre @ (b', s') # post"
  show "(b' = Fits \<longrightarrow> int (length (acc_of pre)) + int (length s') + 1 \<le> mx) \<and>
        (b' = Forced \<longrightarrow> \<not> int (length (acc_of pre)) + int (length s') + 1 \<le> mx \<and>
                        int (length (strip (acc_of pre))) < mn) \<and>
        (b' = Fresh \<longrightarrow> pre = [])"
  proof (cases post rule: rev_cases)
    case Nil
    with eq have "pre = g" "b' = b" "s' = s" by auto
    with assms(2-4) show ?thesis by simp
  next
    case (snoc post' x)
    with eq have "g = pre @ (b', s') # post'" by (metis append.assoc append_Cons butlast_snoc)
    with assms(1) show ?thesis unfolding sound_def by blast
  qed
qed

lemma trace_step_state: "state (trace_step mn mx s ts) = pack_step mn mx s (state ts)"
  by (simp add: trace_step_def Let_def)

lemma trace_loop_snoc: "trace_loop mn mx (ss @ [s]) = trace_step mn mx s (trace_loop mn mx ss)"
  by (simp add: trace_loop_def)

lemma pack_loop_snoc: "pack_loop mn mx (ss @ [s]) = pack_step mn mx s (pack_loop mn mx ss)"
  by (simp add: pack_loop_def)

lemma trace_loop_state: "state (trace_loop mn mx ss) = pack_loop mn mx ss"
proof (induction ss rule: rev_induct)
  case Nil
  then show ?case by (simp add: trace_loop_def pack_loop_def)
next
  case (snoc s ss)
  then show ?case by (simp add: trace_loop_snoc pack_loop_snoc trace_step_state)
qed

lemma trace_inv_init:
  "trace_inv mn mx \<lparr>state = \<lparr>lines = [], current = []\<rparr>, flushed = [], pending = []\<rparr>"
  by (simp add: trace_inv_def)

lemma trace_inv_step:
  assumes inv: "trace_inv mn mx ts"
  shows "trace_inv mn mx (trace_step mn mx s ts)"
proof -
  from inv have cur: "current (state ts) = acc_of (pending ts)"
    and lin: "lines (state ts) = map (\<lambda>g. strip (acc_of g)) (flushed ts)"
    and big: "\<forall>g\<in>set (flushed ts). mn \<le> int (length (strip (acc_of g)))"
    and snd_f: "\<forall>g\<in>set (flushed ts). sound mn mx g"
    and snd_p: "sound mn mx (pending ts)"
    and nb_f: "\<forall>g\<in>set (flushed ts). \<forall>e\<in>set g. strip (snd e) \<noteq> []"
    and nb_p: "\<forall>e\<in>set (pending ts). strip (snd e) \<noteq> []"
    by (simp_all add: trace_inv_def)
  consider (skip) "strip s = []"
    | (fits) "strip s \<noteq> []" "int (length (current (state ts))) + int (length s) + 1 \<le> mx"
    | (flush) "strip s \<noteq> []" "\<not> int (length (current (state ts))) + int (length s) + 1 \<le> mx"
        "mn \<le> int (length (strip (current (state ts))))"
    | (force) "strip s \<noteq> []" "\<not> int (length (current (state ts))) + int (length s) + 1 \<le> mx"
        "\<not> mn \<le> int (length (strip (current (state ts))))"
    by blast
  then show ?thesis
  proof cases
    case skip
    then have "trace_step mn mx s ts = ts"
      by (simp add: trace_step_def pack_step_def Let_def)
    with inv show ?thesis by simp
  next
    case fits
    then have eq: "trace_step mn mx s ts
        = ts\<lparr>state := (state ts)\<lparr>current := current (state ts) @ s @ [32]\<rparr>,
             pending := pending ts @ [(Fits, s)]\<rparr>"
      by (simp add: trace_step_def pack_step_def Let_def)
    have "sound mn mx (pending ts @ [(Fits, s)])"
      using snd_p fits(2) cur by (intro sound_snoc) simp_all
    then show ?thesis
      unfolding eq trace_inv_def using cur lin big snd_f nb_f nb_p fits(1) by simp
  next
    case flush
    then have eq: "trace_step mn mx s ts
        = \<lparr>state = \<lparr>lines = lines (state ts) @ [strip (current (state ts))], current = s @ [32]\<rparr>,
           flushed = flushed ts @ [pending ts], pending = [(Fresh, s)]\<rparr>"
      by (simp add: trace_step_def pack_step_def Let_def)
    have "sound mn mx ([] @ [(Fresh, s)])"
      by (intro sound_snoc) simp_all
    then have "sound mn mx [(Fresh, s)]" by simp
    then show ?thesis
      unfolding eq trace_inv_def using cur lin big snd_f snd_p nb_f nb_p flush(1,3) by simp
  next
    case force
    then have eq: "trace_step mn mx s ts
        = ts\<lparr>state := (state ts)\<lparr>current := current (state ts) @ s @ [32]\<rparr>,
             pending := pending ts @ [(Forced, s)]\<rparr>"
      by (simp add: trace_step_def pack_step_def Let_def)
    have "sound mn mx (pending ts @ [(Forced, s)])"
      using snd_p force(2,3) cur by (intro sound_snoc) simp_all
    then show ?thesis
      unfolding eq trace_inv_def using cur lin big snd_f nb_f nb_p force(1) by simp
  qed
qed

lemma trace_inv_loop: "trace_inv mn mx (trace_loop mn mx ss)"
proof (induction ss rule: rev_induct)
  case Nil
  then show ?case by (simp add: trace_loop_def trace_inv_init)
next
  case (snoc s ss)
  then show ?case by (simp add: trace_loop_snoc trace_inv_step)
qed

lemma trace_step_sentences:
  "concat (map sentences_in (flushed (trace_step mn mx s ts) @ [pending (trace_step mn mx s ts)]))
   = concat (map sentences_in (flushed ts @ [pending ts])) @ (if strip s \<noteq> [] then [s] else [])"
  by (simp add: trace_step_def Let_def sentences_in_def)

lemma trace_loop_sentences:
  "concat (map sentences_in (flushed (trace_loop mn mx ss) @ [pending (trace_loop mn mx ss)]))
   = filter (\<lambda>s. strip s \<noteq> []) ss"
proof (induction ss rule: rev_induct)
  case Nil
  then show ?case by (simp add: trace_loop_def sentences_in_def)
next
  case (snoc s ss)
  show ?case
    unfolding trace_loop_snoc trace_step_sentences snoc.IH by simp
qed

subsection \<open>Sentences of the normalized text\<close>


lemma spaced_normalize: "spaced (normalize t)"
proof (rule spaced_tidy)
  show "\<forall>c\<in>set (normalize t). printable c" by (simp add: printable_normalize)
  show "\<not> sublist [32, 32] (normalize t)" by (rule no_double_normalize)
  show "normalize t \<noteq> [] \<longrightarrow> last (normalize t) \<noteq> 32"
    using ends_normalize [of t] by auto
qed

lemma join_split_normalize: "join [32] (split_sentences (normalize t)) = normalize t"
  unfolding split_sentences_def using join_split_scan [OF spaced_normalize, of False "[]" t] by simp

lemma split_normalize_sublist:
  assumes "s \<in> set (split_sentences (normalize t))"
  shows "sublist s (normalize t)"
proof -
  from assms obtain pre post where "split_sentences (normalize t) = pre @ [s] @ post"
    by (metis append_Cons append_Nil split_list)
  then have "sublist (join [32] [s]) (join [32] (split_sentences (normalize t)))"
    by (metis sublist_join_middle)
  then show ?thesis by (simp add: join_split_normalize)
qed

lemma split_normalize_tidy:
  assumes ne: "normalize t \<noteq> []" and s: "s \<in> set (split_sentences (normalize t))"
  shows "s \<noteq> [] \<and> \<not> is_space (hd s) \<and> \<not> is_space (last s)"
proof -
  let ?N = "normalize t" and ?S = "split_sentences (normalize t)"
  have J: "join [32] ?S = ?N" by (rule join_split_normalize)
  have S: "?S \<noteq> []" by (simp add: split_sentences_def split_scan_not_Nil)
  have "hd ?N \<noteq> 32" "last ?N \<noteq> 32" using ends_normalize [OF ne] by auto
  then have "\<forall>p\<in>set ?S. p \<noteq> [] \<and> hd p \<noteq> 32 \<and> last p \<noteq> 32"
    using join_pieces_tidy [OF S] J ne no_double_normalize [of t] by simp
  with s have 1: "s \<noteq> []" "hd s \<noteq> 32" "last s \<noteq> 32" by auto
  have "set s \<subseteq> set ?N" using split_normalize_sublist [OF s] by (rule set_mono_sublist)
  then have "printable (hd s)" "printable (last s)"
    using 1(1) printable_normalize by (meson hd_in_set last_in_set subsetD)+
  with 1 show ?thesis using space_printable by blast
qed

lemma split_sentences_Nil: "split_sentences [] = [ []]"
  by (simp add: split_sentences_def)

lemma nonblank_tidy: "s \<noteq> [] \<Longrightarrow> \<not> is_space (hd s) \<Longrightarrow> strip s \<noteq> []"
  by (auto simp: strip_eq_Nil_iff)

lemma sentences_of_normalize:
  "sentences_of (normalize t) = (if normalize t = [] then [] else split_sentences (normalize t))"
proof (cases "normalize t = []")
  case True
  then show ?thesis by (simp add: sentences_of_def split_sentences_Nil)
next
  case False
  then have "\<forall>s\<in>set (split_sentences (normalize t)). strip s \<noteq> []"
    using split_normalize_tidy nonblank_tidy by blast
  then have "filter (\<lambda>s. strip s \<noteq> []) (split_sentences (normalize t)) = split_sentences (normalize t)"
    by (simp add: filter_id_conv)
  with False show ?thesis by (simp add: sentences_of_def)
qed

lemma join_sentences_of_normalize: "join [32] (sentences_of (normalize t)) = normalize t"
  by (simp add: sentences_of_normalize join_split_normalize)

lemma sentences_of_tidy:
  "s \<in> set (sentences_of (normalize t)) \<Longrightarrow> s \<noteq> [] \<and> \<not> is_space (hd s) \<and> \<not> is_space (last s)"
  using split_normalize_tidy [of t s] by (auto simp: sentences_of_normalize split: if_splits)

lemma sentences_of_no_break:
  "s \<in> set (sentences_of (normalize t)) \<Longrightarrow> no_break False s"
  unfolding sentences_of_def split_sentences_def
  using split_scan_no_break [of "[]" False s] by (auto simp: ends_terminal_def)

lemma sentences_of_butlast_terminal:
  assumes "s \<in> set (butlast (sentences_of (normalize t)))"
  shows "ends_terminal s"
proof -
  from assms have "s \<in> set (butlast (split_scan False [] (normalize t)))"
    by (auto simp: sentences_of_normalize split_sentences_def split: if_splits)
  then show ?thesis using split_scan_butlast_terminal [of False] by blast
qed

text \<open>Groups of tidy sentences.\<close>

lemma hd_join: "ss \<noteq> [] \<Longrightarrow> hd ss \<noteq> [] \<Longrightarrow> join sep ss \<noteq> [] \<and> hd (join sep ss) = hd (hd ss)"
proof (cases ss)
  case Nil
  assume "ss \<noteq> []"
  with Nil show ?thesis by simp
next
  case (Cons x xs)
  assume "hd ss \<noteq> []"
  with Cons show ?thesis by (cases xs) auto
qed

lemma last_join: "ss \<noteq> [] \<Longrightarrow> last ss \<noteq> [] \<Longrightarrow> last (join sep ss) = last (last ss)"
proof (induction ss)
  case Nil
  then show ?case by simp
next
  case (Cons x ss)
  show ?case
  proof (cases "ss = []")
    case True
    then show ?thesis by simp
  next
    case False
    with Cons have "last (join sep ss) = last (last ss)" by simp
    moreover have "join sep ss \<noteq> []"
    proof
      assume e: "join sep ss = []"
      from False Cons.prems have "last ss \<noteq> []" by simp
      moreover have "last ss = []" using False e
      proof (induction ss)
        case Nil
        then show ?case by simp
      next
        case (Cons y ys)
        then show ?case by (cases ys) auto
      qed
      ultimately show False by simp
    qed
    ultimately show ?thesis using False by (simp add: join_Cons)
  qed
qed

lemma acc_of_Cons: "acc_of ((b, s) # g) = s @ 32 # acc_of g"
  by (simp add: acc_of_def)

lemma acc_of_chunk: "g \<noteq> [] \<Longrightarrow> acc_of g = chunk_of g @ [32]"
proof (induction g)
  case Nil
  then show ?case by simp
next
  case (Cons e g)
  obtain b s where e: "e = (b, s)" by (cases e)
  show ?case
  proof (cases "g = []")
    case True
    then show ?thesis by (simp add: e chunk_of_def sentences_in_def)
  next
    case False
    with Cons have "acc_of g = chunk_of g @ [32]" by simp
    then show ?thesis using False
      by (simp add: e acc_of_Cons chunk_of_def sentences_in_def join_Cons)
  qed
qed

lemma strip_acc_of:
  assumes "\<forall>s\<in>set (sentences_in g). s \<noteq> [] \<and> \<not> is_space (hd s) \<and> \<not> is_space (last s)"
  shows "strip (acc_of g) = chunk_of g"
proof (cases "g = []")
  case True
  then show ?thesis by (simp add: chunk_of_def sentences_in_def)
next
  case False
  let ?ss = "sentences_in g"
  have ne: "?ss \<noteq> []" using False by (simp add: sentences_in_def)
  then have h: "hd ?ss \<in> set ?ss" and l: "last ?ss \<in> set ?ss" by simp_all
  have 1: "join [32] ?ss \<noteq> []" "hd (join [32] ?ss) = hd (hd ?ss)"
    using hd_join [OF ne] assms h by blast+
  have 2: "last (join [32] ?ss) = last (last ?ss)"
    using last_join [OF ne] assms l by blast
  have "strip (chunk_of g) = chunk_of g"
    unfolding chunk_of_def
    using 1 2 assms h l by (intro strip_id) auto
  then show ?thesis by (simp add: acc_of_chunk [OF False] strip_snoc_space)
qed

lemma strip_acc_of_nonblank:
  assumes "g \<noteq> []" and "\<forall>e\<in>set g. strip (snd e) \<noteq> []"
  shows "strip (acc_of g) \<noteq> []"
proof -
  obtain b s where e: "(b, s) \<in> set g" using assms(1) by (cases g) auto
  then have "strip s \<noteq> []" using assms(2) by force
  then obtain c where c: "c \<in> set s" "\<not> is_space c" by (auto simp: strip_eq_Nil_iff)
  have "set s \<subseteq> set (acc_of g)" using e by (force simp: acc_of_def)
  with c show ?thesis by (auto simp: strip_eq_Nil_iff)
qed

subsection \<open>Chunks and groups\<close>


lemma pending_Nil:
  assumes "trace_inv mn mx ts" and "strip (current (state ts)) = []"
  shows "pending ts = []"
proof (rule ccontr)
  assume "pending ts \<noteq> []"
  moreover have "\<forall>e\<in>set (pending ts). strip (snd e) \<noteq> []"
    using assms(1) by (simp add: trace_inv_def)
  ultimately have "strip (acc_of (pending ts)) \<noteq> []" by (rule strip_acc_of_nonblank)
  with assms show False by (simp add: trace_inv_def)
qed

lemma trace_flush_sentences:
  "concat (map sentences_in (trace_flush (trace_loop mn mx ss))) = filter (\<lambda>s. strip s \<noteq> []) ss"
proof (cases "strip (current (state (trace_loop mn mx ss))) = []")
  case True
  then have "pending (trace_loop mn mx ss) = []"
    using pending_Nil trace_inv_loop by blast
  then show ?thesis
    using trace_loop_sentences [of mn mx ss] True by (simp add: trace_flush_def sentences_in_def)
next
  case False
  then show ?thesis using trace_loop_sentences [of mn mx ss] by (simp add: trace_flush_def)
qed

lemma trace_flush_subset:
  "set (trace_flush ts) \<subseteq> set (flushed ts @ [pending ts])"
  by (auto simp: trace_flush_def)

lemma groups_sentences:
  "concat (map sentences_in (groups text mn mx)) = sentences_of (normalize text)"
  by (simp add: groups_def trace_flush_sentences sentences_of_def)

lemma loop_group_tidy:
  assumes g: "g \<in> set (flushed ts @ [pending ts])" and ts: "ts = trace_loop mn mx (split_sentences (normalize text))"
    and s: "s \<in> set (sentences_in g)"
  shows "s \<in> set (sentences_of (normalize text))"
proof -
  have "s \<in> set (concat (map sentences_in (flushed ts @ [pending ts])))"
    using g s by auto
  then show ?thesis unfolding ts trace_loop_sentences by (simp add: sentences_of_def)
qed

lemma loop_group_chunk:
  assumes g: "g \<in> set (flushed ts @ [pending ts])" and ts: "ts = trace_loop mn mx (split_sentences (normalize text))"
  shows "strip (acc_of g) = chunk_of g"
proof (rule strip_acc_of, rule ballI)
  fix s assume "s \<in> set (sentences_in g)"
  then have "s \<in> set (sentences_of (normalize text))" using loop_group_tidy [OF g ts] by simp
  then show "s \<noteq> [] \<and> \<not> is_space (hd s) \<and> \<not> is_space (last s)" by (rule sentences_of_tidy)
qed

lemma lines_flushed:
  "lines (pack_loop mn mx (split_sentences (normalize text)))
   = map chunk_of (flushed (trace_loop mn mx (split_sentences (normalize text))))"
proof -
  define ts where "ts = trace_loop mn mx (split_sentences (normalize text))"
  have "trace_inv mn mx ts" unfolding ts_def by (rule trace_inv_loop)
  then have "lines (state ts) = map (\<lambda>g. strip (acc_of g)) (flushed ts)"
    by (simp add: trace_inv_def)
  also have "\<dots> = map chunk_of (flushed ts)"
    using loop_group_chunk [OF _ ts_def] by (intro map_cong) auto
  finally show ?thesis unfolding ts_def by (simp add: trace_loop_state)
qed

lemma chunks_groups: "chunks text mn mx = map chunk_of (groups text mn mx)"
proof -
  define ts where "ts = trace_loop mn mx (split_sentences (normalize text))"
  have inv: "trace_inv mn mx ts" unfolding ts_def by (rule trace_inv_loop)
  have st: "state ts = pack_loop mn mx (split_sentences (normalize text))"
    unfolding ts_def by (rule trace_loop_state)
  have l: "lines (state ts) = map chunk_of (flushed ts)"
    unfolding st using lines_flushed [of mn mx "text"] by (simp add: ts_def)
  have c: "strip (current (state ts)) = chunk_of (pending ts)"
    using inv loop_group_chunk [OF _ ts_def, of "pending ts"] by (simp add: trace_inv_def)
  have "final_flush (state ts) = map chunk_of (trace_flush ts)"
    by (simp add: final_flush_def trace_flush_def l c)
  then show ?thesis by (simp add: chunks_def groups_def st [symmetric] ts_def)
qed

lemma groups_sound: "g \<in> set (groups text mn mx) \<Longrightarrow> sound mn mx g"
proof -
  define ts where "ts = trace_loop mn mx (split_sentences (normalize text))"
  assume "g \<in> set (groups text mn mx)"
  then have "g \<in> set (flushed ts @ [pending ts])"
    using trace_flush_subset unfolding groups_def ts_def by blast
  moreover have "trace_inv mn mx ts" unfolding ts_def by (rule trace_inv_loop)
  ultimately show ?thesis unfolding trace_inv_def by blast
qed

lemma groups_tidy:
  assumes "g \<in> set (groups text mn mx)" and "s \<in> set (sentences_in g)"
  shows "s \<in> set (sentences_of (normalize text))"
proof -
  have "s \<in> set (concat (map sentences_in (groups text mn mx)))" using assms by auto
  then show ?thesis by (simp add: groups_sentences)
qed

lemma groups_prefix_chunk:
  assumes g: "g \<in> set (groups text mn mx)" and p: "g = pre @ post"
  shows "strip (acc_of pre) = chunk_of pre"
proof (rule strip_acc_of, rule ballI)
  fix s assume "s \<in> set (sentences_in pre)"
  then have "s \<in> set (sentences_in g)" using p by (auto simp: sentences_in_def)
  then have "s \<in> set (sentences_of (normalize text))" using groups_tidy [OF g] by simp
  then show "s \<noteq> [] \<and> \<not> is_space (hd s) \<and> \<not> is_space (last s)" by (rule sentences_of_tidy)
qed

lemma groups_part:
  assumes "g \<in> set (groups text mn mx)"
  shows "\<exists>pre post. sentences_of (normalize text) = pre @ sentences_in g @ post"
proof -
  from assms obtain G1 G2 where "groups text mn mx = G1 @ g # G2" by (meson split_list)
  then have "concat (map sentences_in (groups text mn mx))
      = concat (map sentences_in G1) @ sentences_in g @ concat (map sentences_in G2)" by simp
  then show ?thesis unfolding groups_sentences by blast
qed

lemma chunk_sublist_normalize:
  assumes "g \<in> set (groups text mn mx)"
  shows "sublist (chunk_of g) (normalize text)"
proof -
  from groups_part [OF assms] obtain pre post
    where "sentences_of (normalize text) = pre @ sentences_in g @ post" by blast
  then have "sublist (join [32] (sentences_in g)) (join [32] (sentences_of (normalize text)))"
    by (metis sublist_join_middle)
  then show ?thesis by (simp add: chunk_of_def join_sentences_of_normalize)
qed

section \<open>Sentence conservation and the minimum bound\<close>


lemmas run_defs = normalize_def apply_replacements_def replacements_def keep_char_def
  is_space_def strip_def split_sentences_def is_terminal_def chunks_def pack_loop_def
  pack_step_def final_flush_def sanitize_and_prepare_text_for_llm_def ustr_def groups_def
  trace_loop_def trace_step_def trace_flush_def Let_def

lemma butlast_middle: "x \<in> set (butlast g) \<Longrightarrow> x \<in> set (butlast (pre @ g @ post))"
proof -
  assume x: "x \<in> set (butlast g)"
  then have g: "g \<noteq> []" by auto
  then have "pre @ g @ post = (pre @ butlast g) @ (last g # post)" by simp
  then have "butlast (pre @ g @ post) = (pre @ butlast g) @ butlast (last g # post)"
    by (metis butlast_append list.distinct(1))
  with x show ?thesis by simp
qed

lemma sentences_of_Nil: "sentences_of [] = []"
  by (simp add: sentences_of_def split_sentences_Nil)

lemma resplit_group:
  assumes g: "g \<in> set (groups text mn mx)"
  shows "sentences_of (chunk_of g) = sentences_in g"
proof (cases "sentences_in g = []")
  case True
  then show ?thesis by (simp add: chunk_of_def sentences_of_Nil)
next
  case False
  have mem: "s \<in> set (sentences_of (normalize text))" if "s \<in> set (sentences_in g)" for s
    using groups_tidy [OF g that] .
  have 1: "\<forall>s\<in>set (sentences_in g). no_break False s \<and> s \<noteq> [] \<and> \<not> is_space (hd s)"
    using mem sentences_of_tidy sentences_of_no_break by blast
  have 2: "\<forall>s\<in>set (butlast (sentences_in g)). ends_terminal s"
  proof
    fix s assume s: "s \<in> set (butlast (sentences_in g))"
    from groups_part [OF g] obtain pre post
      where "sentences_of (normalize text) = pre @ sentences_in g @ post" by blast
    with s have "s \<in> set (butlast (sentences_of (normalize text)))"
      using butlast_middle by metis
    then show "ends_terminal s" by (rule sentences_of_butlast_terminal)
  qed
  have "split_sentences (chunk_of g) = sentences_in g"
    unfolding chunk_of_def using False 1 2 by (rule resplit_join)
  moreover have "\<forall>s\<in>set (sentences_in g). strip s \<noteq> []"
    using 1 nonblank_tidy by blast
  ultimately show ?thesis by (simp add: sentences_of_def filter_id_conv)
qed

text \<open>
  C2 (sentence conservation). For every input and all bounds: the sentences of the
  emitted chunks (Step 2 and the loop's skip applied to each chunk), concatenated in
  emission order, are exactly the sentences of the normalized text. Moreover every
  chunk is the join, by single spaces, of one group of whole sentences, and the groups
  concatenated in order are the sentences of the normalized text: no sentence is
  dropped, duplicated, reordered or split across two chunks.
\<close>

theorem sentence_conservation:
  "concat (map sentences_of (chunks text mn mx)) = sentences_of (normalize text) \<and>
   chunks text mn mx = map chunk_of (groups text mn mx) \<and>
   concat (map sentences_in (groups text mn mx)) = sentences_of (normalize text)"
proof -
  have "concat (map sentences_of (chunks text mn mx))
        = concat (map (\<lambda>g. sentences_of (chunk_of g)) (groups text mn mx))"
    by (simp add: chunks_groups comp_def)
  also have "\<dots> = concat (map sentences_in (groups text mn mx))"
    using resplit_group by (metis (mono_tags, lifting) map_cong)
  finally show ?thesis by (simp add: groups_sentences chunks_groups)
qed

lemma lines_big: "c \<in> set (lines (pack_loop mn mx ss)) \<Longrightarrow> mn \<le> int (length c)"
proof -
  assume c: "c \<in> set (lines (pack_loop mn mx ss))"
  have "trace_inv mn mx (trace_loop mn mx ss)" by (rule trace_inv_loop)
  then show ?thesis using c unfolding trace_inv_def trace_loop_state by auto
qed

lemma final_flush_cases:
  "final_flush st = lines st \<or> (\<exists>c. c \<noteq> [] \<and> final_flush st = lines st @ [c])"
  by (simp add: final_flush_def)

text \<open>
  C4 (minimum bound). For every input and all bounds: every chunk appended to
  \<^verbatim>\<open>lines\<close> during the loop has length at least \<^verbatim>\<open>min_chars\<close>; the returned list is
  the list of the loop with at most one more chunk at its end (the flush after the
  loop), so every chunk other than the last one has length at least \<^verbatim>\<open>min_chars\<close>.
\<close>

theorem minimum_bound:
  "(\<forall>c\<in>set (lines (pack_loop mn mx (split_sentences (normalize text)))). mn \<le> int (length c)) \<and>
   (\<forall>c\<in>set (butlast (chunks text mn mx)). mn \<le> int (length c)) \<and>
   (chunks text mn mx = lines (pack_loop mn mx (split_sentences (normalize text))) \<or>
    (\<exists>c. chunks text mn mx = lines (pack_loop mn mx (split_sentences (normalize text))) @ [c]))"
proof -
  let ?st = "pack_loop mn mx (split_sentences (normalize text))"
  have 1: "\<forall>c\<in>set (lines ?st). mn \<le> int (length c)" using lines_big by blast
  have 3: "chunks text mn mx = lines ?st \<or> (\<exists>c. chunks text mn mx = lines ?st @ [c])"
    unfolding chunks_def using final_flush_cases [of ?st] by blast
  have "set (butlast (chunks text mn mx)) \<subseteq> set (lines ?st)"
    using 3 by (auto dest: in_set_butlastD)
  with 1 3 show ?thesis by blast
qed

theorem minimum_bound_witness:
  "ustr ''A.'' \<in> set (butlast (chunks (ustr ''A. B. C.'') 1 5)) \<and>
   (1::int) \<le> int (length (ustr ''A.''))"
  using minimum_bound [of 1 5 "ustr ''A. B. C.''"] by (simp add: run_defs)

section \<open>Empty input\<close>


lemma str_replace_absent:
  "old \<noteq> [] \<Longrightarrow> hd old \<notin> set t \<Longrightarrow> str_replace old new t = t"
proof (induction old new t rule: str_replace.induct)
  case (1 old new)
  then show ?case by simp
next
  case (2 old new c cs)
  have "take (length old) (c # cs) \<noteq> old"
  proof
    assume "take (length old) (c # cs) = old"
    then have "hd old = c" using 2(4) by (cases old) auto
    with 2(5) show False by simp
  qed
  moreover have "str_replace old new cs = cs" using 2(3,4,5) calculation by simp
  ultimately show ?case using 2(4) by simp
qed

lemma str_replace_single:
  "str_replace [a] [b] t = map (\<lambda>c. if c = a then b else c) t"
  by (induction t) auto

lemma collapse_all_space:
  assumes "\<forall>c\<in>set xs. is_space c"
  shows "strip (collapse_ws xs) = []"
proof -
  have "\<forall>c\<in>set (collapse_ws xs). is_space c"
    using assms collapse_ws_elems by fastforce
  then show ?thesis by (simp add: strip_eq_Nil_iff)
qed

lemma normalize_blank:
  assumes "\<forall>c\<in>set t. is_space c \<or> (\<not> keep_char c \<and> c \<noteq> 8212 \<and> c \<noteq> 8211)"
  shows "normalize t = []"
proof -
  have k34: "keep_char 34 \<and> \<not> is_space 34" and k58: "keep_char 58 \<and> \<not> is_space 58"
    and n1: "\<not> is_space 8212" and n2: "\<not> is_space 8211"
    by (simp_all add: keep_char_def is_space_def)
  have a: "34 \<notin> set t" "58 \<notin> set t" "8212 \<notin> set t" "8211 \<notin> set t"
    using assms k34 k58 n1 n2 by blast+
  have "apply_replacements t = str_replace [160] [32] t"
    using a by (simp add: apply_replacements_def replacements_def str_replace_absent)
  also have "\<dots> = map (\<lambda>c. if c = 160 then 32 else c) t" by (rule str_replace_single)
  finally have r: "apply_replacements t = map (\<lambda>c. if c = 160 then 32 else c) t" .
  have "\<forall>c\<in>set (apply_replacements t). is_space c \<or> \<not> keep_char c"
    unfolding r using assms by auto
  then have "\<forall>c\<in>set (filter keep_char (apply_replacements t)). is_space c" by auto
  then show ?thesis unfolding normalize_def by (rule collapse_all_space)
qed

lemma prepare_of_empty:
  "normalize t = [] \<Longrightarrow> sanitize_and_prepare_text_for_llm t mn mx = []"
  by (simp add: sanitize_and_prepare_text_for_llm_def chunks_def split_sentences_Nil
      pack_loop_def pack_step_def final_flush_def)

lemma normalize_Nil: "normalize [] = []"
  by (simp add: normalize_def apply_replacements_def replacements_def)

text \<open>
  C5 (empty input). Whenever the normalized text is empty the result is the empty
  string, whatever the bounds. This is the case for every input made only of
  whitespace and of characters that Step 1 removes (characters outside the kept
  range other than the two dashes, which Step 1 turns into hyphens), and in
  particular for the empty input.
\<close>

theorem empty_input_gives_empty_output:
  "(normalize text = [] \<longrightarrow> sanitize_and_prepare_text_for_llm text mn mx = []) \<and>
   ((\<forall>c\<in>set text. is_space c \<or> (\<not> keep_char c \<and> c \<noteq> 8212 \<and> c \<noteq> 8211)) \<longrightarrow>
      normalize text = [] \<and> sanitize_and_prepare_text_for_llm text mn mx = []) \<and>
   sanitize_and_prepare_text_for_llm [] mn mx = []"
  using prepare_of_empty normalize_blank normalize_Nil by blast

theorem empty_input_gives_empty_output_witness:
  "normalize [32, 9, 10, 7, 11, 233, 160, 8220] = [] \<and>
   sanitize_and_prepare_text_for_llm [32, 9, 10, 7, 11, 233, 160, 8220] 100 300 = []"
proof -
  have h: "\<forall>c\<in>set [32, 9, 10, 7, 11, 233, 160, 8220::nat].
             is_space c \<or> (\<not> keep_char c \<and> c \<noteq> 8212 \<and> c \<noteq> 8211)"
    by (simp add: is_space_def keep_char_def)
  show ?thesis
    using h empty_input_gives_empty_output [of "[32, 9, 10, 7, 11, 233, 160, 8220]" 100 300]
    by blast
qed

section \<open>Characters of the result\<close>


lemma chunk_shape:
  assumes "ch \<in> set (chunks text mn mx)"
  shows "(\<forall>c\<in>set ch. printable c) \<and> \<not> sublist [32, 32] ch"
proof -
  from assms obtain g where g: "g \<in> set (groups text mn mx)" and ch: "ch = chunk_of g"
    by (auto simp: chunks_groups)
  have sub: "sublist ch (normalize text)" unfolding ch by (rule chunk_sublist_normalize [OF g])
  then have "set ch \<subseteq> set (normalize text)" by (rule set_mono_sublist)
  then have 1: "\<forall>c\<in>set ch. printable c" using printable_normalize by blast
  have 2: "\<not> sublist [32, 32] ch"
  proof
    assume "sublist [32, 32] ch"
    then have "sublist [32, 32] (normalize text)" using sub by (rule sublist_order.order_trans)
    then show False by (simp add: no_double_normalize)
  qed
  from 1 2 show ?thesis by simp
qed

lemma set_join: "set (join sep xs) \<subseteq> set sep \<union> \<Union>(set ` set xs)"
  by (induction sep xs rule: join.induct) auto

lemma sublist_pair_append:
  "sublist [a, a] (xs @ ys) \<longleftrightarrow>
     sublist [a, a] xs \<or> sublist [a, a] ys \<or> (xs \<noteq> [] \<and> ys \<noteq> [] \<and> last xs = a \<and> hd ys = a)"
proof (induction xs)
  case Nil
  then show ?case by simp
next
  case (Cons x xs)
  show ?case
  proof (cases xs)
    case Nil
    then show ?thesis by (cases ys) (auto simp: sublist_Cons_right)
  next
    case (Cons x' xs')
    with Cons.IH show ?thesis by (auto simp: sublist_Cons_right)
  qed
qed

lemma join_newline:
  assumes "\<forall>c\<in>set cs. c \<noteq> [] \<and> 10 \<notin> set c"
  shows "\<not> sublist [10, 10] (join [10] cs) \<and>
         (cs \<noteq> [] \<longrightarrow> join [10] cs \<noteq> [] \<and> hd (join [10] cs) \<noteq> 10 \<and> last (join [10] cs) \<noteq> 10)"
  using assms
proof (induction cs)
  case Nil
  then show ?case by simp
next
  case (Cons x cs)
  have x: "x \<noteq> []" "10 \<notin> set x" using Cons.prems by auto
  then have hx: "hd x \<noteq> 10" "last x \<noteq> 10" by (metis hd_in_set last_in_set)+
  have nx: "\<not> sublist [10, 10] x"
  proof
    assume "sublist [10, 10] x"
    then have "set [10, 10] \<subseteq> set x" by (rule set_mono_sublist)
    with x show False by simp
  qed
  show ?case
  proof (cases "cs = []")
    case True
    with x hx nx show ?thesis by simp
  next
    case False
    let ?M = "join [10] cs"
    have ih: "\<not> sublist [10, 10] ?M" "?M \<noteq> []" "hd ?M \<noteq> 10" "last ?M \<noteq> 10"
      using Cons.IH Cons.prems False by auto
    have J: "join [10] (x # cs) = x @ 10 # ?M" using False by (simp add: join_Cons)
    have "\<not> sublist [10, 10] (10 # ?M)"
      using ih by (cases ?M) (auto simp: sublist_Cons_right)
    then have "\<not> sublist [10, 10] (x @ 10 # ?M)"
      using nx hx x by (simp add: sublist_pair_append)
    moreover have "hd (x @ 10 # ?M) \<noteq> 10" using x hx by simp
    moreover have "last (x @ 10 # ?M) \<noteq> 10" using ih by simp
    ultimately show ?thesis unfolding J by simp
  qed
qed

lemma printable_not_newline: "printable c \<Longrightarrow> c \<noteq> 10 \<and> c \<noteq> 9 \<and> c \<noteq> 13 \<and> c < 128"
  by (auto simp: printable_def)

lemma chunks_not_empty:
  assumes mn: "1 \<le> mn" and c: "c \<in> set (chunks text mn mx)"
  shows "c \<noteq> []"
proof -
  let ?st = "pack_loop mn mx (split_sentences (normalize text))"
  from final_flush_cases [of ?st]
  have "c \<in> set (lines ?st) \<or> c \<noteq> []" using c unfolding chunks_def by auto
  then show ?thesis
  proof
    assume "c \<in> set (lines ?st)"
    then have "mn \<le> int (length c)" by (rule lines_big)
    with mn show ?thesis by auto
  qed
qed

text \<open>
  C9 (no empty chunk). For every input and all bounds with \<^verbatim>\<open>min_chars >= 1\<close>, every
  emitted chunk is a non-empty string, the returned string has no two consecutive
  newlines, and it neither begins nor ends with a newline.
\<close>

theorem no_empty_chunk:
  assumes "1 \<le> mn"
  shows "(\<forall>c\<in>set (chunks text mn mx). c \<noteq> []) \<and>
         \<not> sublist [10, 10] (sanitize_and_prepare_text_for_llm text mn mx) \<and>
         (sanitize_and_prepare_text_for_llm text mn mx \<noteq> [] \<longrightarrow>
            hd (sanitize_and_prepare_text_for_llm text mn mx) \<noteq> 10 \<and>
            last (sanitize_and_prepare_text_for_llm text mn mx) \<noteq> 10)"
proof -
  have 1: "\<forall>c\<in>set (chunks text mn mx). c \<noteq> []"
    using chunks_not_empty [OF assms] by blast
  have "\<forall>c\<in>set (chunks text mn mx). 10 \<notin> set c"
    using chunk_shape printable_not_newline by blast
  with 1 have "\<forall>c\<in>set (chunks text mn mx). c \<noteq> [] \<and> 10 \<notin> set c" by simp
  from join_newline [OF this] 1 show ?thesis
    unfolding sanitize_and_prepare_text_for_llm_def by (cases "chunks text mn mx = []") auto
qed

theorem no_empty_chunk_witness:
  "(1::int) \<le> 1 \<and>
   sanitize_and_prepare_text_for_llm (ustr ''A. B. C.'') 1 5 = ustr ''A.'' @ [10] @ ustr ''B.'' @ [10] @ ustr ''C.'' \<and>
   hd (sanitize_and_prepare_text_for_llm (ustr ''A. B. C.'') 1 5) \<noteq> 10 \<and>
   last (sanitize_and_prepare_text_for_llm (ustr ''A. B. C.'') 1 5) \<noteq> 10"
  using no_empty_chunk [of 1 "ustr ''A. B. C.''" 5] by (simp add: run_defs)

text \<open>
  C10 (characters of the result). For every input and all bounds, every character of
  the returned string is printable ASCII (\<^verbatim>\<open>0x20-0x7E\<close>) or the newline that separates
  the chunks: no tab, no carriage return and no character beyond ASCII is left. No
  chunk contains a newline, and no chunk contains two consecutive spaces.
\<close>

theorem output_characters:
  "(\<forall>c\<in>set (sanitize_and_prepare_text_for_llm text mn mx).
      (printable c \<or> c = 10) \<and> c \<noteq> 9 \<and> c \<noteq> 13 \<and> c < 128) \<and>
   (\<forall>ch\<in>set (chunks text mn mx).
      (\<forall>c\<in>set ch. printable c) \<and> 10 \<notin> set ch \<and> \<not> sublist [32, 32] ch)"
proof -
  have ch: "\<forall>ch\<in>set (chunks text mn mx).
      (\<forall>c\<in>set ch. printable c) \<and> 10 \<notin> set ch \<and> \<not> sublist [32, 32] ch"
    using chunk_shape printable_not_newline by blast
  have "(printable c \<or> c = 10) \<and> c \<noteq> 9 \<and> c \<noteq> 13 \<and> c < 128"
    if "c \<in> set (sanitize_and_prepare_text_for_llm text mn mx)" for c
  proof -
    from that have "c \<in> set [10] \<union> \<Union>(set ` set (chunks text mn mx))"
      unfolding sanitize_and_prepare_text_for_llm_def using set_join by blast
    then have "c = 10 \<or> printable c" using ch by auto
    then show ?thesis using printable_not_newline by auto
  qed
  with ch show ?thesis by blast
qed

theorem output_characters_witness:
  "sanitize_and_prepare_text_for_llm (ustr ''A.'' @ [9, 9] @ ustr ''B  '' @ [233, 13, 10] @ ustr ''x.   C'') 1 5
     = ustr ''A.'' @ [10] @ ustr ''B x.'' @ [10] @ ustr ''C'' \<and>
   ustr ''B x.'' \<in> set (chunks (ustr ''A.'' @ [9, 9] @ ustr ''B  '' @ [233, 13, 10] @ ustr ''x.   C'') 1 5) \<and>
   printable 66 \<and> 10 \<notin> set (ustr ''B x.'')"
  using output_characters [of "ustr ''A.'' @ [9, 9] @ ustr ''B  '' @ [233, 13, 10] @ ustr ''x.   C''" 1 5]
  by (simp add: run_defs printable_def)

section \<open>The maximum bound\<close>


lemma length_chunk_of: "g \<noteq> [] \<Longrightarrow> int (length (chunk_of g)) = int (length (acc_of g)) - 1"
  by (simp add: acc_of_chunk)

lemma sound_last_Fits:
  assumes "sound mn mx g" and "g = pre @ [(Fits, s)]"
  shows "int (length (chunk_of g)) \<le> mx - 1"
proof -
  have "int (length (acc_of pre)) + int (length s) + 1 \<le> mx"
    using assms unfolding sound_def by blast
  then have "int (length (acc_of g)) \<le> mx" by (simp add: assms(2))
  moreover have "g \<noteq> []" using assms(2) by simp
  ultimately show ?thesis by (simp add: length_chunk_of)
qed

lemma sound_last_Fresh:
  assumes "sound mn mx g" and "g = pre @ [(Fresh, s)]"
  shows "g = [(Fresh, s)] \<and> chunk_of g = s"
proof -
  have "pre = []" using assms unfolding sound_def by blast
  then show ?thesis by (simp add: assms(2) chunk_of_def sentences_in_def)
qed

lemma sound_unforced:
  assumes snd: "sound mn mx g" and ne: "g \<noteq> []" and nf: "Forced \<notin> fst ` set g"
  shows "int (length (chunk_of g)) \<le> mx - 1 \<or>
         (\<exists>s. g = [(Fresh, s)] \<and> chunk_of g = s \<and> mx \<le> int (length s))"
proof -
  from ne obtain pre b s where g: "g = pre @ [(b, s)]"
    by (metis rev_exhaust surj_pair)
  show ?thesis
  proof (cases b)
    case Fits
    then show ?thesis using sound_last_Fits [OF snd] g by simp
  next
    case Fresh
    with g have "g = pre @ [(Fresh, s)]" by simp
    then have "g = [(Fresh, s)] \<and> chunk_of g = s" by (rule sound_last_Fresh [OF snd])
    then show ?thesis by (cases "mx \<le> int (length s)") auto
  next
    case Forced
    with g nf show ?thesis by force
  qed
qed

lemma sound_all_Fits:
  assumes snd: "sound mn mx g" and ne: "g \<noteq> []" and af: "fst ` set g \<subseteq> {Fits}"
  shows "int (length (chunk_of g)) \<le> mx - 1"
proof -
  from ne obtain pre b s where g: "g = pre @ [(b, s)]"
    by (metis rev_exhaust surj_pair)
  then have "b = Fits" using af by auto
  then show ?thesis using sound_last_Fits [OF snd] g by simp
qed

lemma sound_long_sentence:
  assumes snd: "sound mn mx g" and g: "g = pre @ (b, s) # post" and long: "mx < int (length s)"
  shows "(b = Fresh \<and> pre = []) \<or> (b = Forced \<and> int (length (strip (acc_of pre))) < mn)"
proof (cases b)
  case Fits
  then have "int (length (acc_of pre)) + int (length s) + 1 \<le> mx"
    using snd g unfolding sound_def by blast
  with long show ?thesis by simp
next
  case Fresh
  then show ?thesis using snd g unfolding sound_def by blast
next
  case Forced
  then show ?thesis using snd g unfolding sound_def by blast
qed

lemma sound_no_Fits:
  assumes snd: "sound mn mx g" and mx: "mx \<le> 0" and e: "e \<in> set g"
  shows "fst e \<noteq> Fits"
proof
  assume f: "fst e = Fits"
  from e obtain pre post where "g = pre @ e # post" by (meson split_list)
  then have "g = pre @ (Fits, snd e) # post" using f by (metis prod.collapse)
  then have "int (length (acc_of pre)) + int (length (snd e)) + 1 \<le> mx"
    using snd unfolding sound_def by blast
  with mx show False by simp
qed

lemma sound_grows:
  assumes snd: "sound mn mx g" and mx: "mx \<le> 0" and g: "g = pre @ e # post" and pre: "pre \<noteq> []"
  shows "fst e = Forced \<and> int (length (strip (acc_of pre))) < mn"
proof -
  have g': "g = pre @ (fst e, snd e) # post" using g by simp
  have "fst e \<noteq> Fits" using sound_no_Fits [OF snd mx] g by simp
  moreover have "fst e \<noteq> Fresh" using snd g' pre unfolding sound_def by blast
  ultimately have "fst e = Forced" by (cases "fst e") auto
  then show ?thesis using snd g' unfolding sound_def by blast
qed

lemma flushed_sound:
  "g \<in> set (flushed (trace_loop mn mx ss)) \<Longrightarrow> sound mn mx g"
  using trace_inv_loop [of mn mx ss] unfolding trace_inv_def by simp

text \<open>
  C3 (the claim fails at this input). With \<^verbatim>\<open>min_chars = 1\<close> and \<^verbatim>\<open>max_chars = 5\<close> the
  text \<^verbatim>\<open>Hi. Abcdefghij. Yo.\<close> gives three chunks. The second one, \<^verbatim>\<open>Abcdefghij.\<close>, is
  not the last, its only sentence was placed by the assignment after a flush (it did
  not go through the force-merge branch), and its length 11 exceeds \<^verbatim>\<open>max_chars\<close>.
\<close>

theorem chunk_bound_counterexample:
  "chunks (ustr ''Hi. Abcdefghij. Yo.'') 1 5
     = [ustr ''Hi.'', ustr ''Abcdefghij.'', ustr ''Yo.''] \<and>
   groups (ustr ''Hi. Abcdefghij. Yo.'') 1 5
     = [ [(Fits, ustr ''Hi.'')], [(Fresh, ustr ''Abcdefghij.'')], [(Fresh, ustr ''Yo.'')]] \<and>
   \<not> int (length (chunks (ustr ''Hi. Abcdefghij. Yo.'') 1 5 ! 1)) \<le> 5"
  by (simp add: run_defs)

text \<open>
  C3 (as amended). For every input and all bounds, every emitted chunk, the last one
  included, that holds at least one sentence and received no sentence through the
  force-merge branch has length at most \<^verbatim>\<open>max_chars - 1\<close>, or it consists of exactly
  one sentence, of length at least \<^verbatim>\<open>max_chars\<close>, that the assignment after a flush
  placed in a fresh accumulator. A sentence longer than \<^verbatim>\<open>max_chars\<close> is never split:
  every chunk is the join of whole sentences, and such a sentence enters its chunk
  either as the first sentence of a fresh accumulator or force-merged onto an
  accumulator whose trimmed length is below \<^verbatim>\<open>min_chars\<close>.
\<close>

theorem chunk_bound_amended:
  "chunks text mn mx = map chunk_of (groups text mn mx) \<and>
   (\<forall>g\<in>set (groups text mn mx). g \<noteq> [] \<and> Forced \<notin> fst ` set g \<longrightarrow>
      int (length (chunk_of g)) \<le> mx - 1 \<or>
      (\<exists>s. g = [(Fresh, s)] \<and> chunk_of g = s \<and> mx \<le> int (length s))) \<and>
   (\<forall>g\<in>set (groups text mn mx). \<forall>pre b s post.
      g = pre @ (b, s) # post \<and> mx < int (length s) \<longrightarrow>
      (b = Fresh \<and> pre = []) \<or> (b = Forced \<and> int (length (chunk_of pre)) < mn))"
proof (intro conjI ballI allI impI)
  show "chunks text mn mx = map chunk_of (groups text mn mx)" by (rule chunks_groups)
next
  fix g assume "g \<in> set (groups text mn mx)" and "g \<noteq> [] \<and> Forced \<notin> fst ` set g"
  then show "int (length (chunk_of g)) \<le> mx - 1 \<or>
      (\<exists>s. g = [(Fresh, s)] \<and> chunk_of g = s \<and> mx \<le> int (length s))"
    using sound_unforced groups_sound by blast
next
  fix g pre b s post
  assume g: "g \<in> set (groups text mn mx)" and h: "g = pre @ (b, s) # post \<and> mx < int (length s)"
  have "strip (acc_of pre) = chunk_of pre"
    using groups_prefix_chunk [OF g] h by blast
  then show "(b = Fresh \<and> pre = []) \<or> (b = Forced \<and> int (length (chunk_of pre)) < mn)"
    using sound_long_sentence [OF groups_sound [OF g]] h by metis
qed

theorem chunk_bound_amended_witness:
  "groups (ustr ''Hi. Abcdefghij. Yo.'') 1 5
     = [ [(Fits, ustr ''Hi.'')], [(Fresh, ustr ''Abcdefghij.'')], [(Fresh, ustr ''Yo.'')]] \<and>
   int (length (chunk_of [(Fits, ustr ''Hi.'')])) \<le> 5 - 1 \<and>
   (5::int) < int (length (ustr ''Abcdefghij.'')) \<and>
   chunk_of [(Fresh, ustr ''Abcdefghij.'')] = ustr ''Abcdefghij.''"
  using chunk_bound_amended [of "ustr ''Hi. Abcdefghij. Yo.''" 1 5]
  by (simp add: run_defs chunk_of_def sentences_in_def)

section \<open>The length test and degenerate bounds\<close>


text \<open>
  C8 (the claim fails at these inputs). With \<^verbatim>\<open>min_chars = 0\<close> and \<^verbatim>\<open>max_chars = 0\<close>
  the text \<^verbatim>\<open>Hi.\<close> makes the loop flush the empty accumulator: the chunk pushed
  during the loop is the empty string, no sentence of it was force-merged, and its
  length 0 is not at most \<^verbatim>\<open>max_chars - 1 = -1\<close>. With \<^verbatim>\<open>min_chars = 1\<close> and
  \<^verbatim>\<open>max_chars = 5\<close> the text \<^verbatim>\<open>Hi. Abcdefghij. Yo.\<close> makes the loop flush the chunk
  \<^verbatim>\<open>Abcdefghij.\<close>, of length 11, which received no sentence through the force-merge
  branch either: its sentence was placed by the assignment after a flush.
\<close>

theorem fits_bound_counterexample:
  "lines (pack_loop 0 0 (split_sentences (normalize (ustr ''Hi.'')))) = [ []] \<and>
   flushed (trace_loop 0 0 (split_sentences (normalize (ustr ''Hi.'')))) = [ []] \<and>
   \<not> int (length (lines (pack_loop 0 0 (split_sentences (normalize (ustr ''Hi.'')))) ! 0)) \<le> 0 - 1 \<and>
   lines (pack_loop 1 5 (split_sentences (normalize (ustr ''Hi. Abcdefghij. Yo.''))))
     = [ustr ''Hi.'', ustr ''Abcdefghij.''] \<and>
   flushed (trace_loop 1 5 (split_sentences (normalize (ustr ''Hi. Abcdefghij. Yo.''))))
     = [ [(Fits, ustr ''Hi.'')], [(Fresh, ustr ''Abcdefghij.'')]] \<and>
   \<not> int (length (lines (pack_loop 1 5 (split_sentences (normalize (ustr ''Hi. Abcdefghij. Yo.'')))) ! 1))
       \<le> 5 - 1"
  by (simp add: run_defs)

lemma flushed_big:
  "g \<in> set (flushed (trace_loop mn mx ss)) \<Longrightarrow> mn \<le> int (length (strip (acc_of g)))"
  using trace_inv_loop [of mn mx ss] unfolding trace_inv_def by simp

lemma flushed_unforced:
  assumes g: "g \<in> set (flushed (trace_loop mn mx ss))" and nf: "Forced \<notin> fst ` set g"
  shows "int (length (chunk_of g)) \<le> mx - 1 \<or>
         (\<exists>s. g = [(Fresh, s)] \<and> chunk_of g = s \<and> mx \<le> int (length s)) \<or>
         (g = [] \<and> mx \<le> 0 \<and> mn \<le> 0)"
proof (cases "g = []")
  case True
  have "mn \<le> int (length (strip (acc_of g)))" using g by (rule flushed_big)
  then have mn: "mn \<le> 0" using True by simp
  have c: "int (length (chunk_of g)) = 0" using True by (simp add: chunk_of_def sentences_in_def)
  show ?thesis
  proof (cases "1 \<le> mx")
    case True
    with c show ?thesis by simp
  next
    case False
    with mn \<open>g = []\<close> show ?thesis by simp
  qed
next
  case False
  have "sound mn mx g" using g by (rule flushed_sound)
  then show ?thesis using sound_unforced False nf by blast
qed

text \<open>
  C8 (as amended). For every input and all bounds, every chunk flushed during the loop
  that received no sentence through the force-merge branch has length at most
  \<^verbatim>\<open>max_chars - 1\<close>, with two exceptions: a chunk that consists of exactly one
  sentence, of length at least \<^verbatim>\<open>max_chars\<close>, which the assignment after a flush
  placed in a fresh accumulator; and the empty chunk, which is flushed only when
  \<^verbatim>\<open>min_chars <= 0\<close> and misses the bound only when \<^verbatim>\<open>max_chars <= 0\<close>. In
  particular the bound holds for every chunk flushed during the loop that holds at
  least one sentence and all of whose sentences entered through the branch of
  \<^verbatim>\<open>len(current) + len(sentence) + 1 <= max_chars\<close>.
\<close>

theorem fits_bound_amended:
  "lines (pack_loop mn mx (split_sentences (normalize text)))
     = map chunk_of (flushed (trace_loop mn mx (split_sentences (normalize text)))) \<and>
   (\<forall>g\<in>set (flushed (trace_loop mn mx (split_sentences (normalize text)))).
      Forced \<notin> fst ` set g \<longrightarrow>
      (int (length (chunk_of g)) \<le> mx - 1 \<and> int (length (chunk_of g)) < mx) \<or>
      (\<exists>s. g = [(Fresh, s)] \<and> chunk_of g = s \<and> mx \<le> int (length s)) \<or>
      (g = [] \<and> mx \<le> 0 \<and> mn \<le> 0)) \<and>
   (\<forall>g\<in>set (flushed (trace_loop mn mx (split_sentences (normalize text)))).
      g \<noteq> [] \<and> fst ` set g \<subseteq> {Fits} \<longrightarrow>
      int (length (chunk_of g)) \<le> mx - 1 \<and> int (length (chunk_of g)) < mx)"
proof (intro conjI ballI impI)
  show "lines (pack_loop mn mx (split_sentences (normalize text)))
     = map chunk_of (flushed (trace_loop mn mx (split_sentences (normalize text))))"
    by (rule lines_flushed)
next
  fix g
  assume g: "g \<in> set (flushed (trace_loop mn mx (split_sentences (normalize text))))"
    and nf: "Forced \<notin> fst ` set g"
  from flushed_unforced [OF g nf]
  show "(int (length (chunk_of g)) \<le> mx - 1 \<and> int (length (chunk_of g)) < mx) \<or>
      (\<exists>s. g = [(Fresh, s)] \<and> chunk_of g = s \<and> mx \<le> int (length s)) \<or>
      (g = [] \<and> mx \<le> 0 \<and> mn \<le> 0)"
    by auto
next
  fix g
  assume g: "g \<in> set (flushed (trace_loop mn mx (split_sentences (normalize text))))"
    and h: "g \<noteq> [] \<and> fst ` set g \<subseteq> {Fits}"
  have "sound mn mx g" using g by (rule flushed_sound)
  then have b: "int (length (chunk_of g)) \<le> mx - 1" using h sound_all_Fits by blast
  then show "int (length (chunk_of g)) \<le> mx - 1" .
  from b show "int (length (chunk_of g)) < mx" by simp
qed

theorem fits_bound_amended_witness:
  "flushed (trace_loop 3 6 (split_sentences (normalize (ustr ''A. B. C. D. E.''))))
     = [ [(Fits, ustr ''A.''), (Fits, ustr ''B.'')], [(Fresh, ustr ''C.''), (Fits, ustr ''D.'')]] \<and>
   lines (pack_loop 3 6 (split_sentences (normalize (ustr ''A. B. C. D. E.''))))
     = [ustr ''A. B.'', ustr ''C. D.''] \<and>
   int (length (chunk_of [(Fresh, ustr ''C.''), (Fits, ustr ''D.'')])) \<le> 6 - 1 \<and>
   int (length (chunk_of [(Fits, ustr ''A.''), (Fits, ustr ''B.'')])) \<le> 6 - 1"
proof -
  let ?S = "split_sentences (normalize (ustr ''A. B. C. D. E.''))"
  let ?g1 = "[(Fits, ustr ''A.''), (Fits, ustr ''B.'')]"
  let ?g2 = "[(Fresh, ustr ''C.''), (Fits, ustr ''D.'')]"
  have f: "flushed (trace_loop 3 6 ?S) = [?g1, ?g2]" by (simp add: run_defs)
  have l: "lines (pack_loop 3 6 ?S) = [ustr ''A. B.'', ustr ''C. D.'']" by (simp add: run_defs)
  note T = fits_bound_amended [of 3 6 "ustr ''A. B. C. D. E.''"]
  have m: "?g1 \<in> set (flushed (trace_loop 3 6 ?S))" "?g2 \<in> set (flushed (trace_loop 3 6 ?S))"
    unfolding f by simp_all
  have n2: "Forced \<notin> fst ` set ?g2" and s2: "\<not> (\<exists>s. ?g2 = [(Fresh, s)] \<and> chunk_of ?g2 = s \<and> 6 \<le> int (length s))"
    and e2: "?g2 \<noteq> []" by simp_all
  have a1: "?g1 \<noteq> [] \<and> fst ` set ?g1 \<subseteq> {Fits}" by simp
  have "int (length (chunk_of ?g2)) \<le> 6 - 1" using T m(2) n2 s2 e2 by blast
  moreover have "int (length (chunk_of ?g1)) \<le> 6 - 1" using T m(1) a1 by blast
  ultimately show ?thesis using f l by blast
qed

text \<open>
  C7 (no error path, degenerate bounds). Every function of the embedding is total: the
  scans of \<^verbatim>\<open>str.replace\<close>, \<^verbatim>\<open>re.sub\<close> and \<^verbatim>\<open>re.split\<close> terminate by the termination
  proofs above, the loop runs once over a finite list, and no operation of the source
  can raise on a string and two integers. So for every input and all integer bounds
  the result is a string, namely the chunks joined by newlines, each chunk the join
  of its group of sentences, and the groups hold all the sentences in order. When
  \<^verbatim>\<open>max_chars <= 0\<close>, no sentence passes the length test (each one takes the overflow
  branch), every sentence that joins a non-empty accumulator is force-merged while
  the trimmed accumulator is shorter than \<^verbatim>\<open>min_chars\<close>, and every chunk but the last
  has reached \<^verbatim>\<open>min_chars\<close>.
\<close>

theorem total_and_degenerate_bounds:
  "sanitize_and_prepare_text_for_llm text mn mx = join [10] (map chunk_of (groups text mn mx)) \<and>
   concat (map sentences_in (groups text mn mx)) = sentences_of (normalize text) \<and>
   (mx \<le> 0 \<longrightarrow>
      (\<forall>g\<in>set (groups text mn mx). \<forall>e\<in>set g. fst e \<noteq> Fits) \<and>
      (\<forall>g\<in>set (groups text mn mx). \<forall>pre e post. g = pre @ e # post \<and> pre \<noteq> [] \<longrightarrow>
         fst e = Forced \<and> int (length (chunk_of pre)) < mn) \<and>
      (\<forall>c\<in>set (butlast (chunks text mn mx)). mn \<le> int (length c)))"
proof (intro conjI impI ballI allI)
  show "sanitize_and_prepare_text_for_llm text mn mx = join [10] (map chunk_of (groups text mn mx))"
    by (simp add: sanitize_and_prepare_text_for_llm_def chunks_groups)
next
  show "concat (map sentences_in (groups text mn mx)) = sentences_of (normalize text)"
    by (rule groups_sentences)
next
  fix g e assume "mx \<le> 0" "g \<in> set (groups text mn mx)" "e \<in> set g"
  then show "fst e \<noteq> Fits" using sound_no_Fits groups_sound by blast
next
  fix g pre e post
  assume mx: "mx \<le> 0" and g: "g \<in> set (groups text mn mx)"
    and h: "g = pre @ e # post \<and> pre \<noteq> []"
  have s: "strip (acc_of pre) = chunk_of pre" using groups_prefix_chunk [OF g] h by blast
  have "fst e = Forced \<and> int (length (strip (acc_of pre))) < mn"
    using sound_grows [OF groups_sound [OF g] mx] h by blast
  then show "fst e = Forced" and "int (length (chunk_of pre)) < mn" using s by simp_all
next
  fix c assume "c \<in> set (butlast (chunks text mn mx))"
  then have "c \<in> set (lines (pack_loop mn mx (split_sentences (normalize text))))"
    unfolding chunks_def
    using final_flush_cases [of "pack_loop mn mx (split_sentences (normalize text))"]
    by (auto dest: in_set_butlastD)
  then show "mn \<le> int (length c)" by (rule lines_big)
qed

theorem total_and_degenerate_bounds_witness:
  "(0::int) \<le> 0 \<and>
   groups (ustr ''Hi. Yo. Abc.'') 6 0
     = [ [(Forced, ustr ''Hi.''), (Forced, ustr ''Yo.'')], [(Fresh, ustr ''Abc.'')]] \<and>
   int (length (chunk_of [(Forced, ustr ''Hi.'')])) < 6 \<and>
   sanitize_and_prepare_text_for_llm (ustr ''Hi. Yo. Abc.'') 6 0 = ustr ''Hi. Yo.'' @ [10] @ ustr ''Abc.''"
proof -
  let ?X = "ustr ''Hi. Yo. Abc.''"
  have z: "(0::int) \<le> 0" by simp
  have g: "groups ?X 6 0 = [ [(Forced, ustr ''Hi.''), (Forced, ustr ''Yo.'')], [(Fresh, ustr ''Abc.'')]]"
    by (simp add: run_defs)
  have p: "sanitize_and_prepare_text_for_llm ?X 6 0 = ustr ''Hi. Yo.'' @ [10] @ ustr ''Abc.''"
    by (simp add: run_defs)
  have "\<forall>g\<in>set (groups ?X 6 0). \<forall>pre e post. g = pre @ e # post \<and> pre \<noteq> [] \<longrightarrow>
         fst e = Forced \<and> int (length (chunk_of pre)) < 6"
    using total_and_degenerate_bounds [of ?X 6 0] z by blast
  moreover have "[(Forced, ustr ''Hi.''), (Forced, ustr ''Yo.'')] \<in> set (groups ?X 6 0)"
    unfolding g by simp
  moreover have "[(Forced, ustr ''Hi.''), (Forced, ustr ''Yo.'')]
      = [(Forced, ustr ''Hi.'')] @ (Forced, ustr ''Yo.'') # [] \<and> [(Forced, ustr ''Hi.'')] \<noteq> []"
    by simp
  ultimately have "int (length (chunk_of [(Forced, ustr ''Hi.'')])) < 6" by blast
  with z g p show ?thesis by blast
qed

section \<open>Step 1 on the quotes\<close>

text \<open>
  C1 (the code at the claim's own input). The table of the source holds no curly
  quote: the quotes U+201C and U+201D of \<^verbatim>\<open>She said <U+201C>hello<U+201D>\<close> are not
  replaced by straight quotes, the filter of the non-printable characters removes
  them, and the result is \<^verbatim>\<open>She said hello\<close>, which is not the text with straight quotes
  around \<^verbatim>\<open>hello\<close>.
\<close>

theorem curly_quotes_removed:
  "normalize (ustr ''She said '' @ [8220] @ ustr ''hello'' @ [8221]) = ustr ''She said hello'' \<and>
   normalize (ustr ''She said '' @ [8220] @ ustr ''hello'' @ [8221])
     \<noteq> ustr ''She said '' @ [34] @ ustr ''hello'' @ [34] \<and>
   normalize [8216, 8217] = []"
  by (simp add: normalize_def ustr_def apply_replacements_def replacements_def keep_char_def
      is_space_def strip_def)

text \<open>
  C6 (the code at a failing input). The seven-character key of the table, which the
  source has in place of the curly single quotes, makes Step 1 not idempotent: in
  \<^verbatim>\<open>: "'",<TAB>b\<close> the key does not occur, the whitespace collapse turns the tab into a
  space, and in the result the key occurs, so a second pass replaces it.
\<close>

theorem normalize_twice_differs:
  "normalize [58, 32, 34, 39, 34, 44, 9, 98] = [58, 32, 34, 39, 34, 44, 32, 98] \<and>
   normalize (normalize [58, 32, 34, 39, 34, 44, 9, 98]) = [39, 98] \<and>
   normalize (normalize [58, 32, 34, 39, 34, 44, 9, 98]) \<noteq> normalize [58, 32, 34, 39, 34, 44, 9, 98]"
  by (simp add: normalize_def apply_replacements_def replacements_def keep_char_def
      is_space_def strip_def)

end
